theory Spec2Isabelle
  imports Complex_Main "HOL-Library.Word" "HOL-Library.Monad_Syntax"
begin

unbundle bit_operations_syntax

section \<open>Conventions of the embedding\<close>

text \<open>
  The development embeds two parts of the repository: the mesh indexer of
  \<^verbatim>\<open>cw2-bake/index_mesh.cpp\<close> and the binary container written by
  \<^verbatim>\<open>cw2-bake/main.cpp\<close> and read back by \<^verbatim>\<open>cw2/baked_model.cpp\<close>.

  \<^item> A \<^verbatim>\<open>float\<close> of the indexer is an IEEE 754 binary32 value and its arithmetic is
    evaluated in that format, every operation rounded on its own (\<^verbatim>\<open>FLT_EVAL_METHOD\<close>
    0, no fused multiply-add, no fast-math).  A float that is stored (a
    coordinate of a soup or of a mesh, the tolerance) is the real number it denotes: a NaN
    or an infinity is not an input.  The result of an operation is an \<open>fval\<close>: the exact
    result rounded to the nearest float, ties to even, with gradual underflow, an infinity
    when the rounded value is beyond the largest float, or NaN.  The two zeros are one
    value; a quotient by zero, whose value depends on the sign of the zero, is written out
    as a value that is not there.
  \<^item> Where the container code copies \<^verbatim>\<open>float\<close> values as raw memory they are
    their 32-bit patterns.  The records are therefore polymorphic in the type of a float.
  \<^item> \<^verbatim>\<open>std::size_t\<close> is 64 bits wide.  Sizes and positions in vectors are natural
    numbers; a vector cannot hold \<open>2 ^ 64 - 1\<close> elements, which theorems that need it
    assume.  Values that are stored or hashed with a width are words.
  \<^item> A computation of the indexer returns \<open>None\<close> where the C++ program has no defined
    behaviour (a read past the end of a vector, a float converted to an integer type that
    cannot hold it) or an \<^verbatim>\<open>assert\<close> fails.
  \<^item> A name of the source that ends in an underscore ends in a prime here
    (\<^verbatim>\<open>mergable_\<close> is \<open>mergable'\<close>); the fields \<^verbatim>\<open>norm\<close>, \<^verbatim>\<open>text\<close> and
    \<^verbatim>\<open>min\<close> are \<open>norm_v\<close>, \<open>text_v\<close> and \<open>min_v\<close>.
\<close>

type_synonym 'f vec2 = "'f \<times> 'f"
type_synonym 'f vec3 = "'f \<times> 'f \<times> 'f"
type_synonym 'f vec4 = "'f \<times> 'f \<times> 'f \<times> 'f"

text \<open>Component access \<^verbatim>\<open>v[i]\<close> of a glm vector.\<close>

fun vec3_at :: "'f vec3 \<Rightarrow> nat \<Rightarrow> 'f" where
  "vec3_at (x, y, z) i = (if i = 0 then x else if i = 1 then y else z)"

fun vec2_at :: "'f vec2 \<Rightarrow> nat \<Rightarrow> 'f" where
  "vec2_at (x, y) i = (if i = 0 then x else y)"

text \<open>\<^verbatim>\<open>v[i]\<close> on a \<^verbatim>\<open>std::vector\<close>: undefined past the end.\<close>

definition elem :: "'a list \<Rightarrow> nat \<Rightarrow> 'a option" where
  "elem xs i = (if i < length xs then Some (xs ! i) else None)"

text \<open>A loop over a sequence whose body may fail: the first failure ends the run.\<close>

fun foldM :: "('a \<Rightarrow> 's \<Rightarrow> 's option) \<Rightarrow> 'a list \<Rightarrow> 's \<Rightarrow> 's option" where
  "foldM f [] s = Some s"
| "foldM f (x # xs) s = (case f x s of None \<Rightarrow> None | Some s' \<Rightarrow> foldM f xs s')"

section \<open>Single-precision arithmetic\<close>

text \<open>The value of a float expression: finite, an infinity, or not a number.\<close>

datatype fval = Fin real | PInf | NInf | NaN

text \<open>\<^verbatim>\<open>std::numeric_limits<float>::max()\<close> and \<^verbatim>\<open>::min()\<close>; the latter is the
  smallest positive normal float.\<close>

definition float_max :: real where
  "float_max = (2 - 1 / 2 ^ 23) * 2 ^ 127"

definition float_min :: real where
  "float_min = 1 / 2 ^ 126"

text \<open>The integer nearest to \<open>r\<close>, the even one of two that are equally near.\<close>

definition round_even :: "real \<Rightarrow> int" where
  "round_even r =
     (let f = \<lfloor>r\<rfloor> in
      if r - of_int f < 1 / 2 then f
      else if 1 / 2 < r - of_int f then f + 1
      else if even f then f else f + 1)"

text \<open>
  A float has 24 significant bits and an exponent of at least \<open>- 126\<close>: around a real
  \<open>r\<close> with \<open>2 powi e \<le> \<bar>r\<bar> < 2 powi (e + 1)\<close> the floats are the multiples of
  \<open>2 powi (e - 23)\<close>, and below \<open>2 powi (- 126)\<close> the multiples of \<open>2 powi (- 149)\<close>.
  \<open>float_rnd r\<close> is the nearest of them.
\<close>

definition float_exp :: "real \<Rightarrow> int" where
  "float_exp r = max (- 126) \<lfloor>log 2 \<bar>r\<bar>\<rfloor>"

definition float_ulp :: "real \<Rightarrow> real" where
  "float_ulp r = 2 powi (float_exp r - 23)"

definition float_rnd :: "real \<Rightarrow> real" where
  "float_rnd r = (if r = 0 then 0 else of_int (round_even (r / float_ulp r)) * float_ulp r)"

text \<open>The float that an operation with the exact result \<open>r\<close> returns.\<close>

definition fround :: "real \<Rightarrow> fval" where
  "fround r =
     (if float_max < float_rnd r then PInf
      else if float_rnd r < - float_max then NInf
      else Fin (float_rnd r))"

text \<open>A real number that is a float.\<close>

definition is_float :: "real \<Rightarrow> bool" where
  "is_float r \<longleftrightarrow> fround r = Fin r"

fun fneg :: "fval \<Rightarrow> fval" where
  "fneg (Fin a) = Fin (- a)"
| "fneg PInf = NInf"
| "fneg NInf = PInf"
| "fneg NaN = NaN"

fun fadd :: "fval \<Rightarrow> fval \<Rightarrow> fval" where
  "fadd (Fin a) (Fin b) = fround (a + b)"
| "fadd NaN _ = NaN"
| "fadd _ NaN = NaN"
| "fadd PInf NInf = NaN"
| "fadd NInf PInf = NaN"
| "fadd PInf _ = PInf"
| "fadd _ PInf = PInf"
| "fadd NInf _ = NInf"
| "fadd _ NInf = NInf"

definition fsub :: "fval \<Rightarrow> fval \<Rightarrow> fval" where
  "fsub a b = fadd a (fneg b)"

fun fmul :: "fval \<Rightarrow> fval \<Rightarrow> fval" where
  "fmul (Fin a) (Fin b) = fround (a * b)"
| "fmul NaN _ = NaN"
| "fmul _ NaN = NaN"
| "fmul (Fin a) PInf = (if a = 0 then NaN else if 0 < a then PInf else NInf)"
| "fmul (Fin a) NInf = (if a = 0 then NaN else if 0 < a then NInf else PInf)"
| "fmul PInf (Fin b) = (if b = 0 then NaN else if 0 < b then PInf else NInf)"
| "fmul NInf (Fin b) = (if b = 0 then NaN else if 0 < b then NInf else PInf)"
| "fmul PInf PInf = PInf"
| "fmul PInf NInf = NInf"
| "fmul NInf PInf = NInf"
| "fmul NInf NInf = PInf"

text \<open>The quotient; \<open>None\<close> when the divisor is a zero.\<close>

fun fdiv :: "fval \<Rightarrow> fval \<Rightarrow> fval option" where
  "fdiv (Fin a) (Fin b) = (if b = 0 then None else Some (fround (a / b)))"
| "fdiv PInf (Fin b) = (if b = 0 then None else Some (if 0 < b then PInf else NInf))"
| "fdiv NInf (Fin b) = (if b = 0 then None else Some (if 0 < b then NInf else PInf))"
| "fdiv NaN (Fin b) = (if b = 0 then None else Some NaN)"
| "fdiv (Fin a) PInf = Some (Fin 0)"
| "fdiv (Fin a) NInf = Some (Fin 0)"
| "fdiv PInf PInf = Some NaN"
| "fdiv PInf NInf = Some NaN"
| "fdiv NInf PInf = Some NaN"
| "fdiv NInf NInf = Some NaN"
| "fdiv NaN PInf = Some NaN"
| "fdiv NaN NInf = Some NaN"
| "fdiv _ NaN = Some NaN"

text \<open>\<^verbatim>\<open>std::abs\<close>.\<close>

fun fabs :: "fval \<Rightarrow> fval" where
  "fabs (Fin a) = Fin \<bar>a\<bar>"
| "fabs PInf = PInf"
| "fabs NInf = PInf"
| "fabs NaN = NaN"

text \<open>The comparison \<^verbatim>\<open>a < b\<close>, false when an operand is NaN; \<^verbatim>\<open>a > b\<close> is
  \<open>fless b a\<close>.\<close>

fun fless :: "fval \<Rightarrow> fval \<Rightarrow> bool" where
  "fless (Fin a) (Fin b) \<longleftrightarrow> a < b"
| "fless NaN _ \<longleftrightarrow> False"
| "fless _ NaN \<longleftrightarrow> False"
| "fless _ NInf \<longleftrightarrow> False"
| "fless NInf _ \<longleftrightarrow> True"
| "fless PInf _ \<longleftrightarrow> False"
| "fless _ PInf \<longleftrightarrow> True"

text \<open>\<^verbatim>\<open>std::max(a, b)\<close> is \<^verbatim>\<open>(a < b) ? b : a\<close>.\<close>

definition std_max :: "fval \<Rightarrow> fval \<Rightarrow> fval" where
  "std_max a b = (if fless a b then b else a)"

text \<open>
  Conversion of a float to an unsigned integer type truncates towards zero and is
  undefined when the value is not finite or the truncated value does not fit.
\<close>

definition to_size_t :: "fval \<Rightarrow> nat option" where
  "to_size_t v =
     (case v of
        Fin r \<Rightarrow> if - 1 < r \<and> r < 2 ^ 64 then Some (nat \<lfloor>r\<rfloor>) else None
      | _ \<Rightarrow> None)"

definition to_uint32 :: "fval \<Rightarrow> 32 word option" where
  "to_uint32 v =
     (case v of
        Fin r \<Rightarrow> if - 1 < r \<and> r < 2 ^ 32 then Some (of_nat (nat \<lfloor>r\<rfloor>)) else None
      | _ \<Rightarrow> None)"

text \<open>Conversion of a \<^verbatim>\<open>std::uint32_t\<close> to float.\<close>

definition of_uint32 :: "32 word \<Rightarrow> fval" where
  "of_uint32 w = fround (real (unat w))"

section \<open>The mesh indexer (index\_mesh.hpp, index\_mesh.cpp)\<close>

subsection \<open>Types and tweakables\<close>

record 'f TriangleSoup =
  vert :: "'f vec3 list"
  norm_v :: "'f vec3 list"
  text_v :: "'f vec2 list"

record 'f IndexedMesh =
  vert :: "'f vec3 list"
  norm_v :: "'f vec3 list"
  text_v :: "'f vec2 list"
  tangent :: "'f vec4 list"
  indices :: "32 word list"
  aabbMin :: "'f vec3"
  aabbMax :: "'f vec3"

definition kAABBMarginFactor :: real where
  "kAABBMarginFactor = 10"

definition kSparseGridMaxSize :: nat where
  "kSparseGridMaxSize = 1024 * 1024"

record DiscretizedPosition' =
  x :: "32 word"
  y :: "32 word"
  z :: "32 word"

text \<open>\<open>scale\<close> is \<open>None\<close> when the quotient that defines it has a zero divisor.\<close>

record Discretizer' =
  min_v :: "fval vec3"
  scale :: "fval option"

type_synonym VicinityKey' = "64 word"

text \<open>The multimap as the sequence of its entries; \<open>equal_range\<close> visits the entries of
  one key in that order.\<close>

type_synonym VicinityMap' = "(VicinityKey' \<times> nat) list"

type_synonym VertexMapping' = "nat list"
type_synonym IndexBuffer' = "32 word list"

subsection \<open>Discretizer\<close>

definition Discretizer'_ctor :: "32 word \<Rightarrow> fval vec3 \<Rightarrow> fval \<Rightarrow> Discretizer'" where
  "Discretizer'_ctor aFactor aMin aSide =
     \<lparr> min_v = aMin, scale = fdiv (of_uint32 aFactor) aSide \<rparr>"

definition discretize :: "Discretizer' \<Rightarrow> real vec3 \<Rightarrow> DiscretizedPosition' option" where
  "discretize aD aPos =
     (case scale aD of
        None \<Rightarrow> None
      | Some sc \<Rightarrow> do {
          rx \<leftarrow> to_uint32 (fmul (fsub (Fin (vec3_at aPos 0)) (vec3_at (min_v aD) 0)) sc);
          ry \<leftarrow> to_uint32 (fmul (fsub (Fin (vec3_at aPos 1)) (vec3_at (min_v aD) 1)) sc);
          rz \<leftarrow> to_uint32 (fmul (fsub (Fin (vec3_at aPos 2)) (vec3_at (min_v aD) 2)) sc);
          Some \<lparr> x = rx, y = ry, z = rz \<rparr> })"

subsection \<open>Hashing and the vicinity map\<close>

text \<open>\<^verbatim>\<open>std::hash<std::size_t>\<close> belongs to the standard library: it is the parameter
  \<open>gHash\<close>.  A coordinate is a signed 32-bit value and is sign-extended to 64 bits.\<close>

definition hash_discretized_position' ::
  "(64 word \<Rightarrow> 64 word) \<Rightarrow> DiscretizedPosition' \<Rightarrow> VicinityKey'" where
  "hash_discretized_position' gHash aDP =
     (let h0 = gHash (scast (x aDP));
          h1 = h0 XOR (gHash (scast (y aDP)) + 0x9e3779b9 + push_bit 6 h0 + drop_bit 2 h0);
          h2 = h1 XOR (gHash (scast (z aDP)) + 0x9e3779b9 + push_bit 6 h1 + drop_bit 2 h1)
      in h2)"

definition build_vicinity_map' ::
  "(64 word \<Rightarrow> 64 word) \<Rightarrow> VicinityMap' \<Rightarrow> Discretizer' \<Rightarrow> real vec3 list
     \<Rightarrow> VicinityMap' option" where
  "build_vicinity_map' gHash aMap aD aPositions =
     foldM (\<lambda>index m. do {
              dp \<leftarrow> discretize aD (aPositions ! index);
              Some (m @ [(hash_discretized_position' gHash dp, index)]) })
       [0..<length aPositions] aMap"

definition equal_range :: "VicinityMap' \<Rightarrow> VicinityKey' \<Rightarrow> nat list" where
  "equal_range aVM vk = map snd (filter (\<lambda>e. fst e = vk) aVM)"

subsection \<open>Mergeability\<close>

definition mergable' ::
  "real TriangleSoup \<Rightarrow> nat \<Rightarrow> nat \<Rightarrow> real vec3 \<Rightarrow> real vec3 \<Rightarrow> real \<Rightarrow> bool option" where
  "mergable' aSoup aI aJ aIPos aJPos aErrorTolerance =
     (if list_ex (\<lambda>i. fless (Fin aErrorTolerance)
                         (fabs (fsub (Fin (vec3_at aIPos i)) (Fin (vec3_at aJPos i))))) [0, 1, 2]
      then Some False
      else do {
        normOk \<leftarrow>
          (if TriangleSoup.norm_v aSoup \<noteq> [] then do {
             nI \<leftarrow> elem (TriangleSoup.norm_v aSoup) aI;
             nJ \<leftarrow> elem (TriangleSoup.norm_v aSoup) aJ;
             Some (\<not> list_ex (\<lambda>i. fless (Fin aErrorTolerance)
                                   (fabs (fsub (Fin (vec3_at nI i)) (Fin (vec3_at nJ i))))) [0, 1, 2]) }
           else Some True);
        if \<not> normOk then Some False
        else do {
          tI \<leftarrow> elem (TriangleSoup.text_v aSoup) aI;
          tJ \<leftarrow> elem (TriangleSoup.text_v aSoup) aJ;
          Some (\<not> list_ex (\<lambda>i. fless (Fin aErrorTolerance)
                                (fabs (fsub (Fin (vec2_at tI i)) (Fin (vec2_at tJ i))))) [0, 1]) } })"

text \<open>The data model of a triangle soup: parallel sequences, the normals possibly absent.\<close>

definition wf_soup :: "'f TriangleSoup \<Rightarrow> bool" where
  "wf_soup s \<longleftrightarrow>
     length (TriangleSoup.text_v s) = length (TriangleSoup.vert s) \<and>
     (TriangleSoup.norm_v s = [] \<or> length (TriangleSoup.norm_v s) = length (TriangleSoup.vert s))"

subsection \<open>Collapsing vertices\<close>

definition kNeighbourCount' :: nat where
  "kNeighbourCount' = 27"

definition offset :: "(int \<times> int \<times> int) list" where
  "offset =
     [ (0, 0, 0), (0, 0, 1), (0, 0, - 1),
       (0, 1, 0), (0, 1, 1), (0, 1, - 1),
       (0, - 1, 0), (0, - 1, 1), (0, - 1, - 1),

       (1, 0, 0), (1, 0, 1), (1, 0, - 1),
       (1, 1, 0), (1, 1, 1), (1, 1, - 1),
       (1, - 1, 0), (1, - 1, 1), (1, - 1, - 1),

       (- 1, 0, 0), (- 1, 0, 1), (- 1, 0, - 1),
       (- 1, 1, 0), (- 1, 1, 1), (- 1, 1, - 1),
       (- 1, - 1, 0), (- 1, - 1, 1), (- 1, - 1, - 1) ]"

text \<open>Only called with \<open>aJ < kNeighbourCount'\<close>, which the source asserts.  The signed
  additions wrap here.\<close>

definition neighbour' :: "DiscretizedPosition' \<Rightarrow> nat \<Rightarrow> DiscretizedPosition'" where
  "neighbour' aDP aJ =
     (case offset ! aJ of
        (ox, oy, oz) \<Rightarrow>
          \<lparr> x = x aDP + word_of_int ox, y = y aDP + word_of_int oy, z = z aDP + word_of_int oz \<rparr>)"

text \<open>The marker \<^verbatim>\<open>~std::size_t(0)\<close> of a vertex that has no slot yet.\<close>

definition unassigned :: nat where
  "unassigned = 2 ^ 64 - 1"

text \<open>The variables of \<^verbatim>\<open>collapse_vertices_\<close>: the two output vectors, the collapse map,
  the slot counter, and the two locals of one scan.\<close>

record collapse_state =
  aIndices :: "IndexBuffer'"
  aVertices :: "VertexMapping'"
  collapseMap :: "nat list"
  nextVertex :: nat
  merged :: bool
  target :: nat

text \<open>The body of the loop over one bucket (lines 373 to 400), for the candidate
  \<open>idx\<close>.\<close>

definition merge_candidate ::
  "real TriangleSoup \<Rightarrow> real \<Rightarrow> nat \<Rightarrow> real vec3 \<Rightarrow> nat \<Rightarrow> collapse_state
     \<Rightarrow> collapse_state option" where
  "merge_candidate aSoup aMaxError i self idx st =
     (if idx = i then Some st
      else do {
        c \<leftarrow> elem (collapseMap st) idx;
        if unassigned \<noteq> c then Some st
        else do {
          other \<leftarrow> elem (TriangleSoup.vert aSoup) idx;
          m \<leftarrow> mergable' aSoup i idx self other aMaxError;
          if m then
            (if merged st then
               Some (st \<lparr> collapseMap := (collapseMap st) [idx := target st] \<rparr>)
             else
               (let toWhere = nextVertex st in
                Some (st \<lparr> nextVertex := toWhere + 1,
                           aVertices := aVertices st @ [i],
                           collapseMap := (collapseMap st) [i := toWhere, idx := toWhere],
                           aIndices := aIndices st @ [of_nat toWhere],
                           target := toWhere,
                           merged := True \<rparr>)))
          else Some st } })"

text \<open>The candidates of one scan: the buckets of the 27 neighbouring cells, in turn.\<close>

definition candidates ::
  "(64 word \<Rightarrow> 64 word) \<Rightarrow> VicinityMap' \<Rightarrow> DiscretizedPosition' \<Rightarrow> nat list" where
  "candidates gHash aVM dp =
     concat (map (\<lambda>j. equal_range aVM (hash_discretized_position' gHash (neighbour' dp j)))
       [0..<kNeighbourCount'])"

text \<open>The body of the loop over the vertices (lines 350 to 411).\<close>

definition process_vertex ::
  "(64 word \<Rightarrow> 64 word) \<Rightarrow> VicinityMap' \<Rightarrow> Discretizer' \<Rightarrow> real TriangleSoup \<Rightarrow> real
     \<Rightarrow> nat \<Rightarrow> collapse_state \<Rightarrow> collapse_state option" where
  "process_vertex gHash aVM aD aSoup aMaxError i st = do {
     c \<leftarrow> elem (collapseMap st) i;
     if unassigned \<noteq> c then
       (if c < length (aVertices st)
        then Some (st \<lparr> aIndices := aIndices st @ [of_nat c] \<rparr>)
        else None)
     else do {
       self \<leftarrow> elem (TriangleSoup.vert aSoup) i;
       dp \<leftarrow> discretize aD self;
       st1 \<leftarrow> foldM (merge_candidate aSoup aMaxError i self) (candidates gHash aVM dp)
                (st \<lparr> merged := False, target := unassigned \<rparr>);
       if \<not> merged st1 then
         (let toWhere = nextVertex st1 in
          Some (st1 \<lparr> nextVertex := toWhere + 1,
                      collapseMap := (collapseMap st1) [i := toWhere],
                      aVertices := aVertices st1 @ [i],
                      aIndices := aIndices st1 @ [of_nat toWhere] \<rparr>))
       else Some st1 } }"

definition collapse_init :: "real TriangleSoup \<Rightarrow> collapse_state" where
  "collapse_init aSoup =
     \<lparr> aIndices = [], aVertices = [],
       collapseMap = replicate (length (TriangleSoup.vert aSoup)) unassigned,
       nextVertex = 0, merged = False, target = unassigned \<rparr>"

text \<open>The state when the loop over the vertices has run for the vertices below \<open>n\<close>.\<close>

definition collapse_upto ::
  "(64 word \<Rightarrow> 64 word) \<Rightarrow> VicinityMap' \<Rightarrow> Discretizer' \<Rightarrow> real TriangleSoup \<Rightarrow> real
     \<Rightarrow> nat \<Rightarrow> collapse_state option" where
  "collapse_upto gHash aVM aD aSoup aMaxError n =
     foldM (process_vertex gHash aVM aD aSoup aMaxError) [0..<n] (collapse_init aSoup)"

text \<open>Returns the index buffer, the vertex mapping and the number of slots.\<close>

definition collapse_vertices' ::
  "(64 word \<Rightarrow> 64 word) \<Rightarrow> VicinityMap' \<Rightarrow> Discretizer' \<Rightarrow> real TriangleSoup \<Rightarrow> real
     \<Rightarrow> (IndexBuffer' \<times> VertexMapping' \<times> nat) option" where
  "collapse_vertices' gHash aVM aD aSoup aMaxError = do {
     st \<leftarrow> collapse_upto gHash aVM aD aSoup aMaxError (length (TriangleSoup.vert aSoup));
     Some (aIndices st, aVertices st, nextVertex st) }"

subsection \<open>make\_indexed\_mesh\<close>

definition vmin :: "real vec3 \<Rightarrow> real vec3 \<Rightarrow> real vec3" where
  "vmin a b = (min (vec3_at a 0) (vec3_at b 0), min (vec3_at a 1) (vec3_at b 1),
               min (vec3_at a 2) (vec3_at b 2))"

definition vmax :: "real vec3 \<Rightarrow> real vec3 \<Rightarrow> real vec3" where
  "vmax a b = (max (vec3_at a 0) (vec3_at b 0), max (vec3_at a 1) (vec3_at b 1),
               max (vec3_at a 2) (vec3_at b 2))"

text \<open>Lines 77 to 84: the bounding volume \<open>(bmin, bmax)\<close>.\<close>

definition bounding_volume :: "real vec3 list \<Rightarrow> real vec3 \<times> real vec3" where
  "bounding_volume vs =
     fold (\<lambda>v (bmin, bmax). (vmin bmin v, vmax bmax v)) vs
       ((float_max, float_max, float_max), (float_min, float_min, float_min))"

text \<open>Lines 86 to 91: the lower corner \<open>fmin\<close> of the enlarged volume and its longest
  side.\<close>

definition grid_volume :: "real vec3 list \<Rightarrow> real \<Rightarrow> fval vec3 \<times> fval" where
  "grid_volume vs aErrorTolerance =
     (case bounding_volume vs of
        (bmin, bmax) \<Rightarrow>
          (let m = fmul (Fin kAABBMarginFactor) (Fin aErrorTolerance);
               fmin = (fsub (Fin (vec3_at bmin 0)) m, fsub (Fin (vec3_at bmin 1)) m,
                       fsub (Fin (vec3_at bmin 2)) m);
               fmax = (fadd (Fin (vec3_at bmax 0)) m, fadd (Fin (vec3_at bmax 1)) m,
                       fadd (Fin (vec3_at bmax 2)) m);
               side = (fsub (vec3_at fmax 0) (vec3_at fmin 0), fsub (vec3_at fmax 1) (vec3_at fmin 1),
                       fsub (vec3_at fmax 2) (vec3_at fmin 2));
               maxSide = std_max (vec3_at side 0) (std_max (vec3_at side 1) (vec3_at side 2))
           in (fmin, maxSide)))"

text \<open>Lines 93 and 94: the number of subdivisions.  A quotient by a zero is an infinity
  or a NaN, and its conversion is undefined.\<close>

definition grid_subdiv :: "fval \<Rightarrow> real \<Rightarrow> nat option" where
  "grid_subdiv maxSide aErrorTolerance = do {
     numCells \<leftarrow> fdiv maxSide (fmul (Fin 2) (Fin aErrorTolerance));
     n \<leftarrow> to_size_t (fadd numCells (Fin (1 / 2)));
     Some (min kSparseGridMaxSize n) }"

text \<open>Lines 76 to 97: the discretizer of a soup.\<close>

definition make_discretizer :: "real TriangleSoup \<Rightarrow> real \<Rightarrow> Discretizer' option" where
  "make_discretizer aSoup aErrorTolerance =
     (case grid_volume (TriangleSoup.vert aSoup) aErrorTolerance of
        (fmin, maxSide) \<Rightarrow> do {
          subdiv \<leftarrow> grid_subdiv maxSide aErrorTolerance;
          Some (Discretizer'_ctor (of_nat subdiv) fmin maxSide) })"

definition IndexedMesh_ctor :: "real IndexedMesh" where
  "IndexedMesh_ctor =
     \<lparr> IndexedMesh.vert = [], norm_v = [], text_v = [], tangent = [], indices = [],
       aabbMin = (float_max, float_max, float_max),
       aabbMax = (float_min, float_min, float_min) \<rparr>"

text \<open>Lines 115 to 131: the attributes of slot \<open>i\<close> are copied from the vertex
  \<open>vertexMapping[i]\<close> of the soup.\<close>

definition shuffle_vertex ::
  "real TriangleSoup \<Rightarrow> VertexMapping' \<Rightarrow> nat \<Rightarrow> real IndexedMesh \<Rightarrow> real IndexedMesh option" where
  "shuffle_vertex aSoup vertexMapping i ret = do {
     from \<leftarrow> elem vertexMapping i;
     v \<leftarrow> elem (TriangleSoup.vert aSoup) from;
     t \<leftarrow> elem (TriangleSoup.text_v aSoup) from;
     let ret = ret \<lparr> IndexedMesh.vert := (IndexedMesh.vert ret) [i := v],
                     IndexedMesh.text_v := (IndexedMesh.text_v ret) [i := t] \<rparr>;
     if TriangleSoup.norm_v aSoup \<noteq> [] then do {
       n \<leftarrow> elem (TriangleSoup.norm_v aSoup) from;
       Some (ret \<lparr> IndexedMesh.norm_v := (IndexedMesh.norm_v ret) [i := n] \<rparr>) }
     else Some ret }"

definition shuffle_vertex_data ::
  "real TriangleSoup \<Rightarrow> VertexMapping' \<Rightarrow> nat \<Rightarrow> real IndexedMesh option" where
  "shuffle_vertex_data aSoup vertexMapping verts =
     foldM (shuffle_vertex aSoup vertexMapping) [0..<verts]
       (IndexedMesh_ctor
          \<lparr> IndexedMesh.vert := replicate verts (0, 0, 0),
            IndexedMesh.text_v := replicate verts (0, 0),
            IndexedMesh.norm_v :=
              (if TriangleSoup.norm_v aSoup \<noteq> [] then replicate verts (0, 0, 0) else []) \<rparr>)"

text \<open>Lines 135 to 166.  The tangent frames come from the library tgen, which is not part
  of the repository: \<open>tgen\<close> stands for the four calls, from the indices, the flattened
  positions, texcoords and normals and the number of vertices to the flattened
  four-component tangents.\<close>

type_synonym tgen = "32 word list \<Rightarrow> real list \<Rightarrow> real list \<Rightarrow> real list \<Rightarrow> nat \<Rightarrow> real list"

fun group4 :: "real list \<Rightarrow> real vec4 list option" where
  "group4 (a # b # c # d # r) = map_option ((#) (a, b, c, d)) (group4 r)"
| "group4 [] = Some []"
| "group4 _ = None"

definition make_indexed_mesh ::
  "tgen \<Rightarrow> (64 word \<Rightarrow> 64 word) \<Rightarrow> real TriangleSoup \<Rightarrow> real \<Rightarrow> real IndexedMesh option" where
  "make_indexed_mesh tgen gHash aSoup aErrorTolerance = do {
     dis \<leftarrow> make_discretizer aSoup aErrorTolerance;
     vincinityMap \<leftarrow> build_vicinity_map' gHash [] dis (TriangleSoup.vert aSoup);
     (indices, vertexMapping, verts) \<leftarrow>
        collapse_vertices' gHash vincinityMap dis aSoup aErrorTolerance;
     if length indices = length (TriangleSoup.vert aSoup) \<and> verts = length vertexMapping
     then do {
       ret \<leftarrow> shuffle_vertex_data aSoup vertexMapping verts;
       let ret = ret \<lparr> IndexedMesh.indices := indices \<rparr>;
       let positions = concat (map (\<lambda>(a, b, c). [a, b, c]) (IndexedMesh.vert ret));
       let uvs = concat (map (\<lambda>(a, b). [a, b]) (IndexedMesh.text_v ret));
       let normals = concat (map (\<lambda>(a, b, c). [a, b, c]) (IndexedMesh.norm_v ret));
       tangents \<leftarrow> group4 (tgen indices positions uvs normals (length (IndexedMesh.text_v ret)));
       Some (ret \<lparr> tangent := tangents,
                   aabbMin := fst (bounding_volume (TriangleSoup.vert aSoup)),
                   aabbMax := snd (bounding_volume (TriangleSoup.vert aSoup)) \<rparr>) }
     else None }"

section \<open>Predicates of the indexer's properties\<close>

text \<open>No entry of the first collapse map that has a slot differs in the second.\<close>

definition keeps_assigned :: "nat list \<Rightarrow> nat list \<Rightarrow> bool" where
  "keeps_assigned c c' \<longleftrightarrow>
     length c' = length c \<and> (\<forall>k<length c. c ! k \<noteq> unassigned \<longrightarrow> c' ! k = c ! k)"

text \<open>What holds of the variables of \<^verbatim>\<open>collapse_vertices_\<close> at every point of the loops,
  for a soup of \<open>N\<close> vertices.\<close>

definition collapse_inv :: "nat \<Rightarrow> collapse_state \<Rightarrow> bool" where
  "collapse_inv N st \<longleftrightarrow>
     length (collapseMap st) = N \<and>
     length (aVertices st) = nextVertex st \<and>
     (\<forall>ix\<in>set (aIndices st). unat ix < nextVertex st) \<and>
     (\<forall>k<N. collapseMap st ! k \<noteq> unassigned \<longrightarrow> collapseMap st ! k < nextVertex st) \<and>
     (\<forall>v\<in>set (aVertices st). v < N) \<and>
     (merged st \<longrightarrow> target st < nextVertex st)"

text \<open>Every entry of the vicinity map is a vertex of the soup.\<close>

definition vm_in_range :: "VicinityMap' \<Rightarrow> nat \<Rightarrow> bool" where
  "vm_in_range aVM N \<longleftrightarrow> (\<forall>e\<in>set aVM. snd e < N)"

text \<open>The attribute arrays of \<open>ret\<close> have \<open>verts\<close> entries, and each slot below \<open>n\<close>
  holds the attributes of the vertex of the soup that the vertex mapping names.\<close>

definition shuffled :: "real TriangleSoup \<Rightarrow> VertexMapping' \<Rightarrow> nat \<Rightarrow> nat \<Rightarrow> real IndexedMesh \<Rightarrow> bool" where
  "shuffled aSoup vm verts n ret \<longleftrightarrow>
     length (IndexedMesh.vert ret) = verts \<and> length (IndexedMesh.text_v ret) = verts \<and>
     (TriangleSoup.norm_v aSoup \<noteq> [] \<longrightarrow> length (IndexedMesh.norm_v ret) = verts) \<and>
     (\<forall>i<n. i < length vm \<and> vm ! i < length (TriangleSoup.vert aSoup) \<and>
        IndexedMesh.vert ret ! i = TriangleSoup.vert aSoup ! (vm ! i) \<and>
        IndexedMesh.text_v ret ! i = TriangleSoup.text_v aSoup ! (vm ! i) \<and>
        (TriangleSoup.norm_v aSoup \<noteq> [] \<longrightarrow>
           IndexedMesh.norm_v ret ! i = TriangleSoup.norm_v aSoup ! (vm ! i)))"

text \<open>A stand-in for the tangent library, with four zeros for each vertex.\<close>

definition tgen_zero :: tgen where
  "tgen_zero inds positions uvs normals n = replicate (4 * n) 0"

text \<open>A soup of three vertices, the first and the last the same, and a discretizer and
  a vicinity map for it.\<close>

definition soup3 :: "real TriangleSoup" where
  "soup3 = \<lparr> TriangleSoup.vert = [(0, 0, 0), (1, 0, 0), (0, 0, 0)],
             norm_v = [(0, 0, 1), (0, 0, 1), (0, 0, 1)],
             text_v = [(0, 0), (1, 0), (0, 0)] \<rparr>"

definition dis3 :: "Discretizer'" where
  "dis3 = \<lparr> min_v = (Fin (- 1), Fin (- 1), Fin (- 1)), scale = Some (Fin 4) \<rparr>"

definition vm3 :: "VicinityMap'" where
  "vm3 = [(7, 0), (9, 1), (7, 2)]"

text \<open>The bounding box of a soup, in the words of the specification: on the axis \<open>k\<close>
  it reaches from the least to the greatest coordinate of a position.\<close>

definition bbox_lower :: "real vec3 list \<Rightarrow> nat \<Rightarrow> real" where
  "bbox_lower vs k = Min ((\<lambda>v. vec3_at v k) ` set vs)"

definition bbox_upper :: "real vec3 list \<Rightarrow> nat \<Rightarrow> real" where
  "bbox_upper vs k = Max ((\<lambda>v. vec3_at v k) ` set vs)"

definition bbox_longest_side :: "real vec3 list \<Rightarrow> real" where
  "bbox_longest_side vs =
     max (bbox_upper vs 0 - bbox_lower vs 0)
       (max (bbox_upper vs 1 - bbox_lower vs 1) (bbox_upper vs 2 - bbox_lower vs 2))"

text \<open>The grid resolution in the words of the specification:
  \<^verbatim>\<open>min(maxGridCells, boundingBoxLongestSide / (2 * tolerance))\<close>.\<close>

definition spec_grid_resolution :: "real \<Rightarrow> real \<Rightarrow> real" where
  "spec_grid_resolution longestSide tolerance =
     min (real kSparseGridMaxSize) (longestSide / (2 * tolerance))"

text \<open>
  The grid resolution as amended.  The bounding box is enlarged by ten tolerances on
  every side, the longest side of the enlarged box is divided by twice the tolerance, one
  half is added, the sum is truncated to an integer and capped; every operation is a
  single-precision one, and there is no resolution where the quotient is not a finite
  number or the sum does not fit \<^verbatim>\<open>std::size_t\<close>.
\<close>

definition enlarged_side :: "real vec3 list \<Rightarrow> real \<Rightarrow> nat \<Rightarrow> fval" where
  "enlarged_side vs tolerance k =
     fsub (fadd (Fin (bbox_upper vs k)) (fmul (Fin 10) (Fin tolerance)))
          (fsub (Fin (bbox_lower vs k)) (fmul (Fin 10) (Fin tolerance)))"

definition enlarged_longest_side :: "real vec3 list \<Rightarrow> real \<Rightarrow> fval" where
  "enlarged_longest_side vs tolerance =
     std_max (enlarged_side vs tolerance 0)
       (std_max (enlarged_side vs tolerance 1) (enlarged_side vs tolerance 2))"

definition amended_grid_resolution :: "real vec3 list \<Rightarrow> real \<Rightarrow> nat option" where
  "amended_grid_resolution vs tolerance = do {
     q \<leftarrow> fdiv (enlarged_longest_side vs tolerance) (fmul (Fin 2) (Fin tolerance));
     n \<leftarrow> to_size_t (fadd q (Fin (1 / 2)));
     Some (min (1024 * 1024) n) }"

text \<open>A float value that is a number and not negative, or the positive infinity.\<close>

definition nonneg_fval :: "fval \<Rightarrow> bool" where
  "nonneg_fval a \<longleftrightarrow> (case a of Fin r \<Rightarrow> 0 \<le> r | PInf \<Rightarrow> True | _ \<Rightarrow> False)"

text \<open>Every coordinate of every position is a float.\<close>

definition float_positions :: "real vec3 list \<Rightarrow> bool" where
  "float_positions vs \<longleftrightarrow> list_all (\<lambda>v. is_float (vec3_at v 0) \<and> is_float (vec3_at v 1) \<and> is_float (vec3_at v 2)) vs"

text \<open>One triangle with sides of length three along two axes.\<close>

definition triangle3 :: "real TriangleSoup" where
  "triangle3 = \<lparr> TriangleSoup.vert = [(0, 0, 0), (3, 0, 0), (0, 3, 0)],
                 norm_v = [(0, 0, 1), (0, 0, 1), (0, 0, 1)],
                 text_v = [(0, 0), (1, 0), (0, 1)] \<rparr>"

text \<open>The float nearest to one tenth, and a triangle with sides of that length that has
  it as a coordinate on every axis.\<close>

definition tenth :: real where
  "tenth = 13421773 / 134217728"

definition triangle_tenth :: "real TriangleSoup" where
  "triangle_tenth = \<lparr> TriangleSoup.vert = [(0, 0, 0), (tenth, 0, 0), (0, tenth, tenth)],
                      norm_v = [(0, 0, 1), (0, 0, 1), (0, 0, 1)],
                      text_v = [(0, 0), (1, 0), (0, 1)] \<rparr>"

section \<open>The baked container (cw2-bake/main.cpp, cw2/baked\_model.cpp)\<close>

text \<open>
  A file is the sequence of its bytes, and a byte is a \<^typ>\<open>char\<close>, as in the program.  A
  \<^verbatim>\<open>FILE*\<close> that is read is the sequence of the bytes not read yet, and a function that
  reads returns the rest with its value; a function that writes returns the bytes it
  writes.  Integers are stored as on the machines the program runs on, least significant
  byte first, and a \<^verbatim>\<open>float\<close> is stored as the four bytes of its bit pattern.
\<close>

type_synonym float_bits = "32 word"

text \<open>The byte of the low eight bits of a word, and the word of a byte.\<close>

definition char_of_word :: "'a::len word \<Rightarrow> char" where
  "char_of_word w = char_of (unat w)"

definition word_of_char :: "char \<Rightarrow> 'a::len word" where
  "word_of_char c = of_nat (of_char c)"

definition bytes_of_uint32 :: "32 word \<Rightarrow> char list" where
  "bytes_of_uint32 w =
     [char_of_word w, char_of_word (drop_bit 8 w), char_of_word (drop_bit 16 w),
      char_of_word (drop_bit 24 w)]"

definition uint32_of_bytes :: "char list \<Rightarrow> 32 word" where
  "uint32_of_bytes bs =
     word_of_char (bs ! 0) OR push_bit 8 (word_of_char (bs ! 1)) OR
     push_bit 16 (word_of_char (bs ! 2)) OR push_bit 24 (word_of_char (bs ! 3))"

definition bytes_of_vec2 :: "float_bits vec2 \<Rightarrow> char list" where
  "bytes_of_vec2 v = (case v of (a, b) \<Rightarrow> bytes_of_uint32 a @ bytes_of_uint32 b)"

definition bytes_of_vec3 :: "float_bits vec3 \<Rightarrow> char list" where
  "bytes_of_vec3 v =
     (case v of (a, b, c) \<Rightarrow> bytes_of_uint32 a @ bytes_of_uint32 b @ bytes_of_uint32 c)"

definition bytes_of_vec4 :: "float_bits vec4 \<Rightarrow> char list" where
  "bytes_of_vec4 v =
     (case v of (a, b, c, d) \<Rightarrow>
        bytes_of_uint32 a @ bytes_of_uint32 b @ bytes_of_uint32 c @ bytes_of_uint32 d)"

definition vec2_of_bytes :: "char list \<Rightarrow> float_bits vec2" where
  "vec2_of_bytes bs = (uint32_of_bytes (take 4 bs), uint32_of_bytes (take 4 (drop 4 bs)))"

definition vec3_of_bytes :: "char list \<Rightarrow> float_bits vec3" where
  "vec3_of_bytes bs =
     (uint32_of_bytes (take 4 bs), uint32_of_bytes (take 4 (drop 4 bs)),
      uint32_of_bytes (take 4 (drop 8 bs)))"

definition vec4_of_bytes :: "char list \<Rightarrow> float_bits vec4" where
  "vec4_of_bytes bs =
     (uint32_of_bytes (take 4 bs), uint32_of_bytes (take 4 (drop 4 bs)),
      uint32_of_bytes (take 4 (drop 8 bs)), uint32_of_bytes (take 4 (drop 12 bs)))"

text \<open>The \<open>n\<close> elements of \<open>sz\<close> bytes each that a vector holds after its memory has
  been filled with \<open>bs\<close>.\<close>

fun array_of_bytes :: "nat \<Rightarrow> (char list \<Rightarrow> 'a) \<Rightarrow> nat \<Rightarrow> char list \<Rightarrow> 'a list" where
  "array_of_bytes sz dec 0 bs = []"
| "array_of_bytes sz dec (Suc n) bs = dec (take sz bs) # array_of_bytes sz dec n (drop sz bs)"

text \<open>The memory of the first \<open>n\<close> elements of a vector; reading past its end is
  undefined.\<close>

definition bytes_of_array :: "('a \<Rightarrow> char list) \<Rightarrow> nat \<Rightarrow> 'a list \<Rightarrow> char list option" where
  "bytes_of_array enc n xs = (if n \<le> length xs then Some (concat (map enc (take n xs))) else None)"

subsection \<open>The input model and the texture table (input\_model.hpp, cw2-bake/main.cpp)\<close>

record 'f InputMaterialInfo =
  materialName :: string
  baseColor :: "'f vec3"
  baseRoughness :: 'f
  baseMetalness :: 'f
  baseColorTexturePath :: string
  roughnessTexturePath :: string
  metalnessTexturePath :: string
  alphaMaskTexturePath :: string
  normalMapTexturePath :: string

record InputMeshInfo =
  meshName :: string
  materialIndex :: nat
  vertexStartIndex :: nat
  vertexCount :: nat

record 'f InputModel =
  modelSourcePath :: string
  materials :: "'f InputMaterialInfo list"
  meshes :: "InputMeshInfo list"
  positions :: "'f vec3 list"
  normals :: "'f vec3 list"
  texcoords :: "'f vec2 list"

record TextureInfo' =
  uniqueId :: "32 word"
  channels :: "8 word"
  newPath :: string

text \<open>The \<^verbatim>\<open>unordered_map\<close> from paths to textures is the sequence of its entries, in the
  order in which a loop visits them, with \<open>map_of\<close> for \<^verbatim>\<open>find\<close>.\<close>

type_synonym TextureMap = "(string \<times> TextureInfo') list"

subsection \<open>Constants and types\<close>

definition kFileMagic :: "char list" where
  "kFileMagic = [CHR 0x00, CHR 0x00] @ ''COMP5822Mmesh'' @ [CHR 0x00]"

definition kFileVariant :: "char list" where
  "kFileVariant = ''scsmbil-tan'' @ replicate 5 (CHR 0x00)"

definition kMaxString :: "32 word" where
  "kMaxString = 32 * 1024"

record BakedTextureInfo =
  path :: string
  channels :: "8 word"

record BakedMaterialInfo =
  baseColorTextureId :: "32 word"
  roughnessTextureId :: "32 word"
  metalnessTextureId :: "32 word"
  alphaMaskTextureId :: "32 word"
  normalMapTextureId :: "32 word"

record BakedMeshData =
  materialId :: "32 word"
  positions :: "float_bits vec3 list"
  texcoords :: "float_bits vec2 list"
  normals :: "float_bits vec3 list"
  tangents :: "float_bits vec4 list"
  indices :: "32 word list"

record BakedModel =
  textures :: "BakedTextureInfo list"
  materials :: "BakedMaterialInfo list"
  meshes :: "BakedMeshData list"

text \<open>The errors that the loader throws, and the failure of an \<^verbatim>\<open>assert\<close>.\<close>

datatype load_error =
  CannotOpen
  | ShortRead
  | LongString "32 word"
  | InvalidSignature
  | WrongVariant
  | AssertFailed

subsection \<open>Reading (baked\_model.cpp)\<close>

definition checked_read' :: "char list \<Rightarrow> nat \<Rightarrow> load_error + (char list \<times> char list)" where
  "checked_read' aFin aBytes =
     (if aBytes \<le> length aFin then Inr (take aBytes aFin, drop aBytes aFin) else Inl ShortRead)"

definition read_uint32' :: "char list \<Rightarrow> load_error + (32 word \<times> char list)" where
  "read_uint32' aFin =
     (case checked_read' aFin 4 of
        Inl e \<Rightarrow> Inl e
      | Inr (ret, aFin) \<Rightarrow> Inr (uint32_of_bytes ret, aFin))"

definition read_string' :: "char list \<Rightarrow> load_error + (string \<times> char list)" where
  "read_string' aFin =
     (case read_uint32' aFin of
        Inl e \<Rightarrow> Inl e
      | Inr (len, aFin) \<Rightarrow>
          if len \<ge> kMaxString then Inl (LongString len)
          else checked_read' aFin (unat len))"

text \<open>A loop that reads \<open>n\<close> records, each with \<open>item\<close>, and appends them in turn.\<close>

fun read_repeat ::
  "nat \<Rightarrow> (char list \<Rightarrow> load_error + ('a \<times> char list)) \<Rightarrow> char list
     \<Rightarrow> load_error + ('a list \<times> char list)" where
  "read_repeat 0 item aFin = Inr ([], aFin)"
| "read_repeat (Suc n) item aFin =
     (case item aFin of
        Inl e \<Rightarrow> Inl e
      | Inr (v, aFin) \<Rightarrow>
          (case read_repeat n item aFin of
             Inl e \<Rightarrow> Inl e
           | Inr (vs, aFin) \<Rightarrow> Inr (v # vs, aFin)))"

text \<open>The body of the loop over the textures (lines 100 to 107).\<close>

definition read_texture :: "string \<Rightarrow> char list \<Rightarrow> load_error + (BakedTextureInfo \<times> char list)" where
  "read_texture prefix aFin =
     (case read_string' aFin of
        Inl e \<Rightarrow> Inl e
      | Inr (s, aFin) \<Rightarrow>
          (case checked_read' aFin 1 of
             Inl e \<Rightarrow> Inl e
           | Inr (c, aFin) \<Rightarrow> Inr (\<lparr> path = prefix @ s, channels = word_of_char (c ! 0) \<rparr>, aFin)))"

text \<open>The body of the loop over the materials (lines 114 to 125).  \<open>asserts\<close> says
  whether \<^verbatim>\<open>assert\<close> is compiled in; \<open>ntex\<close> is \<^verbatim>\<open>ret.textures.size()\<close>.\<close>

definition read_material ::
  "bool \<Rightarrow> nat \<Rightarrow> char list \<Rightarrow> load_error + (BakedMaterialInfo \<times> char list)" where
  "read_material asserts ntex aFin =
     (case read_uint32' aFin of Inl e \<Rightarrow> Inl e | Inr (b, aFin) \<Rightarrow>
      case read_uint32' aFin of Inl e \<Rightarrow> Inl e | Inr (r, aFin) \<Rightarrow>
      case read_uint32' aFin of Inl e \<Rightarrow> Inl e | Inr (m, aFin) \<Rightarrow>
      case read_uint32' aFin of Inl e \<Rightarrow> Inl e | Inr (a, aFin) \<Rightarrow>
      case read_uint32' aFin of Inl e \<Rightarrow> Inl e | Inr (n, aFin) \<Rightarrow>
        if asserts \<and> \<not> (unat b < ntex \<and> unat r < ntex \<and> unat m < ntex) then Inl AssertFailed
        else Inr (\<lparr> baseColorTextureId = b, roughnessTextureId = r, metalnessTextureId = m,
                    alphaMaskTextureId = a, normalMapTextureId = n \<rparr>, aFin))"

text \<open>The body of the loop over the meshes (lines 132 to 154); \<open>nmat\<close> is
  \<^verbatim>\<open>ret.materials.size()\<close>.\<close>

definition read_mesh ::
  "bool \<Rightarrow> nat \<Rightarrow> char list \<Rightarrow> load_error + (BakedMeshData \<times> char list)" where
  "read_mesh asserts nmat aFin =
     (case read_uint32' aFin of Inl e \<Rightarrow> Inl e | Inr (mid, aFin) \<Rightarrow>
      if asserts \<and> \<not> unat mid < nmat then Inl AssertFailed else
      case read_uint32' aFin of Inl e \<Rightarrow> Inl e | Inr (V, aFin) \<Rightarrow>
      case read_uint32' aFin of Inl e \<Rightarrow> Inl e | Inr (I, aFin) \<Rightarrow>
      case checked_read' aFin (unat V * 12) of Inl e \<Rightarrow> Inl e | Inr (ps, aFin) \<Rightarrow>
      case checked_read' aFin (unat V * 12) of Inl e \<Rightarrow> Inl e | Inr (ns, aFin) \<Rightarrow>
      case checked_read' aFin (unat V * 8) of Inl e \<Rightarrow> Inl e | Inr (ts, aFin) \<Rightarrow>
      case checked_read' aFin (unat V * 16) of Inl e \<Rightarrow> Inl e | Inr (gs, aFin) \<Rightarrow>
      case checked_read' aFin (unat I * 4) of Inl e \<Rightarrow> Inl e | Inr (is, aFin) \<Rightarrow>
        Inr (\<lparr> materialId = mid,
               positions = array_of_bytes 12 vec3_of_bytes (unat V) ps,
               texcoords = array_of_bytes 8 vec2_of_bytes (unat V) ts,
               normals = array_of_bytes 12 vec3_of_bytes (unat V) ns,
               tangents = array_of_bytes 16 vec4_of_bytes (unat V) gs,
               indices = array_of_bytes 4 uint32_of_bytes (unat I) is \<rparr>, aFin))"

text \<open>The name up to its last slash, or nothing (lines 75 to 81).\<close>

definition path_prefix :: "string \<Rightarrow> string" where
  "path_prefix aInputName = rev (dropWhile (\<lambda>c. c \<noteq> CHR ''/'') (rev aInputName))"

text \<open>Lines 72 to 155 of \<^verbatim>\<open>load_baked_model_\<close>: the model and the rest of the file.\<close>

definition load_tables :: "bool \<Rightarrow> char list \<Rightarrow> string \<Rightarrow> load_error + (BakedModel \<times> char list)" where
  "load_tables asserts aFin aInputName =
     (case checked_read' aFin 16 of Inl e \<Rightarrow> Inl e | Inr (magic, aFin) \<Rightarrow>
      if magic \<noteq> kFileMagic then Inl InvalidSignature else
      case checked_read' aFin 16 of Inl e \<Rightarrow> Inl e | Inr (variant, aFin) \<Rightarrow>
      if variant \<noteq> kFileVariant then Inl WrongVariant else
      case read_uint32' aFin of Inl e \<Rightarrow> Inl e | Inr (textureCount, aFin) \<Rightarrow>
      case read_repeat (unat textureCount) (read_texture (path_prefix aInputName)) aFin of
        Inl e \<Rightarrow> Inl e | Inr (texs, aFin) \<Rightarrow>
      case read_uint32' aFin of Inl e \<Rightarrow> Inl e | Inr (materialCount, aFin) \<Rightarrow>
      case read_repeat (unat materialCount) (read_material asserts (length texs)) aFin of
        Inl e \<Rightarrow> Inl e | Inr (mats, aFin) \<Rightarrow>
      case read_uint32' aFin of Inl e \<Rightarrow> Inl e | Inr (meshCount, aFin) \<Rightarrow>
      case read_repeat (unat meshCount) (read_mesh asserts (length mats)) aFin of
        Inl e \<Rightarrow> Inl e | Inr (ms, aFin) \<Rightarrow>
        Inr (\<lparr> textures = texs, materials = mats, meshes = ms \<rparr>, aFin))"

text \<open>\<^verbatim>\<open>load_baked_model_\<close>: the model, and whether the note on trailing bytes is
  printed (lines 157 to 164).\<close>

definition load_baked_model' :: "bool \<Rightarrow> char list \<Rightarrow> string \<Rightarrow> load_error + (BakedModel \<times> bool)" where
  "load_baked_model' asserts aFin aInputName =
     (case load_tables asserts aFin aInputName of
        Inl e \<Rightarrow> Inl e
      | Inr (ret, aFin) \<Rightarrow> Inr (ret, aFin \<noteq> []))"

text \<open>\<^verbatim>\<open>load_baked_model\<close>; \<open>file\<close> is the content of the file at the path, if it can be
  opened.\<close>

definition load_baked_model :: "bool \<Rightarrow> char list option \<Rightarrow> string \<Rightarrow> load_error + BakedModel" where
  "load_baked_model asserts file aModelPath =
     (case file of
        None \<Rightarrow> Inl CannotOpen
      | Some fin \<Rightarrow>
          (case load_baked_model' asserts fin aModelPath of
             Inl e \<Rightarrow> Inl e
           | Inr (ret, note) \<Rightarrow> Inr ret))"

subsection \<open>Writing (cw2-bake/main.cpp)\<close>

text \<open>
  The writer returns the bytes it writes, and \<open>None\<close> where an \<^verbatim>\<open>assert\<close> fails or the
  program reads outside a vector.  That \<^verbatim>\<open>fwrite\<close> writes everything is assumed.
\<close>

text \<open>\<^verbatim>\<open>c_str()\<close> as the characters before the terminator.\<close>

definition c_str :: "string \<Rightarrow> string" where
  "c_str s = takeWhile (\<lambda>c. c \<noteq> CHR 0x00) s"

text \<open>\<open>aString\<close> holds the characters of the C string before its terminator.\<close>

definition write_string' :: "string \<Rightarrow> char list" where
  "write_string' aString =
     (let len = (of_nat (length aString + 1) :: 32 word)
      in bytes_of_uint32 len @ take (unat len) (aString @ [CHR 0x00]))"

text \<open>Lines 233 to 238: the textures in the order of their identifiers.\<close>

definition place_texture ::
  "TextureInfo' \<Rightarrow> TextureInfo' option list \<Rightarrow> TextureInfo' option list option" where
  "place_texture tex orderedUnique =
     (let i = unat (uniqueId tex) in
      if i < length orderedUnique then
        (if orderedUnique ! i \<noteq> None then None else Some (orderedUnique [i := Some tex]))
      else None)"

definition ordered_unique :: "TextureMap \<Rightarrow> TextureInfo' option list option" where
  "ordered_unique aTextures =
     foldM (\<lambda>tex. place_texture (snd tex)) aTextures (replicate (length aTextures) None)"

text \<open>Lines 245 to 249.\<close>

definition write_texture :: "TextureInfo' option \<Rightarrow> char list option" where
  "write_texture tex =
     (case tex of
        None \<Rightarrow> None
      | Some t \<Rightarrow> Some (write_string' (c_str (newPath t)) @ [char_of_word (TextureInfo'.channels t)]))"

text \<open>The lambda \<^verbatim>\<open>write_tex_\<close> of lines 267 to 279.\<close>

definition write_tex' :: "TextureMap \<Rightarrow> string \<Rightarrow> char list option" where
  "write_tex' aTextures aTexturePath =
     (if aTexturePath = [] then Some (bytes_of_uint32 (NOT 0))
      else (case map_of aTextures aTexturePath of
              None \<Rightarrow> None
            | Some info \<Rightarrow> Some (bytes_of_uint32 (uniqueId info))))"

definition write_material :: "TextureMap \<Rightarrow> 'f InputMaterialInfo \<Rightarrow> char list option" where
  "write_material aTextures mat = do {
     b \<leftarrow> write_tex' aTextures (baseColorTexturePath mat);
     r \<leftarrow> write_tex' aTextures (roughnessTexturePath mat);
     m \<leftarrow> write_tex' aTextures (metalnessTexturePath mat);
     a \<leftarrow> write_tex' aTextures (alphaMaskTexturePath mat);
     n \<leftarrow> write_tex' aTextures (normalMapTexturePath mat);
     Some (b @ r @ m @ a @ n) }"

text \<open>Lines 305 to 322.\<close>

definition write_mesh :: "InputMeshInfo \<Rightarrow> float_bits IndexedMesh \<Rightarrow> char list option" where
  "write_mesh mmesh imesh =
     (let materialIndex = (of_nat (InputMeshInfo.materialIndex mmesh) :: 32 word);
          vertexCount = (of_nat (length (IndexedMesh.vert imesh)) :: 32 word);
          indexCount = (of_nat (length (IndexedMesh.indices imesh)) :: 32 word)
      in do {
        ps \<leftarrow> bytes_of_array bytes_of_vec3 (unat vertexCount) (IndexedMesh.vert imesh);
        ns \<leftarrow> bytes_of_array bytes_of_vec3 (unat vertexCount) (IndexedMesh.norm_v imesh);
        ts \<leftarrow> bytes_of_array bytes_of_vec2 (unat vertexCount) (IndexedMesh.text_v imesh);
        gs \<leftarrow> bytes_of_array bytes_of_vec4 (unat vertexCount) (IndexedMesh.tangent imesh);
        is \<leftarrow> bytes_of_array bytes_of_uint32 (unat indexCount) (IndexedMesh.indices imesh);
        Some (bytes_of_uint32 materialIndex @ bytes_of_uint32 vertexCount @
              bytes_of_uint32 indexCount @ ps @ ns @ ts @ gs @ is) })"

definition write_model_data' ::
  "'f InputModel \<Rightarrow> float_bits IndexedMesh list \<Rightarrow> TextureMap \<Rightarrow> char list option" where
  "write_model_data' aModel aIndexedMeshes aTextures = do {
     orderedUnique \<leftarrow> ordered_unique aTextures;
     let textureCount = (of_nat (length orderedUnique) :: 32 word);
     texs \<leftarrow> those (map write_texture orderedUnique);
     let materialCount = (of_nat (length (InputModel.materials aModel)) :: 32 word);
     mats \<leftarrow> those (map (write_material aTextures) (InputModel.materials aModel));
     let meshCount = (of_nat (length (InputModel.meshes aModel)) :: 32 word);
     if length (InputModel.meshes aModel) = length aIndexedMeshes then do {
       ms \<leftarrow> those (map (\<lambda>(mmesh, imesh). write_mesh mmesh imesh)
               (zip (InputModel.meshes aModel) aIndexedMeshes));
       Some (kFileMagic @ kFileVariant @
             bytes_of_uint32 textureCount @ concat texs @
             bytes_of_uint32 materialCount @ concat mats @
             bytes_of_uint32 meshCount @ concat ms) }
     else None }"

section \<open>Predicates and examples of the container's properties\<close>

text \<open>A reader that succeeds has read a prefix \<open>c\<close> of the bytes: it returns the same
  value whatever follows \<open>c\<close>, and it fails on a short read when \<open>c\<close> is cut.\<close>

definition reads_exactly :: "(char list \<Rightarrow> load_error + ('a \<times> char list)) \<Rightarrow> bool" where
  "reads_exactly r \<longleftrightarrow>
     (\<forall>bs v rest. r bs = Inr (v, rest) \<longrightarrow>
        (\<exists>c. bs = c @ rest \<and> (\<forall>ext. r (c @ ext) = Inr (v, ext)) \<and>
             (\<forall>k<length c. r (take k c) = Inl ShortRead)))"

text \<open>One read after another.\<close>

definition bindR ::
  "(char list \<Rightarrow> load_error + ('a \<times> char list)) \<Rightarrow> ('a \<Rightarrow> char list \<Rightarrow> load_error + ('b \<times> char list))
     \<Rightarrow> char list \<Rightarrow> load_error + ('b \<times> char list)" where
  "bindR r1 r2 = (\<lambda>bs. case r1 bs of Inl e \<Rightarrow> Inl e | Inr (v, rest) \<Rightarrow> r2 v rest)"

text \<open>A container with no texture, no material and no mesh.\<close>

definition empty_container :: "char list" where
  "empty_container =
     kFileMagic @ kFileVariant @ bytes_of_uint32 0 @ bytes_of_uint32 0 @ bytes_of_uint32 0"

text \<open>What the loader makes of a texture, a material and a mesh that were written: the
  path of a texture is the prefix and the bytes of the C string with its terminator.\<close>

definition baked_texture :: "string \<Rightarrow> TextureInfo' \<Rightarrow> BakedTextureInfo" where
  "baked_texture prefix t =
     \<lparr> path = prefix @ c_str (newPath t) @ [CHR 0x00], channels = TextureInfo'.channels t \<rparr>"

text \<open>The identifier that \<^verbatim>\<open>write_tex_\<close> stores for a path.\<close>

definition texture_index :: "TextureMap \<Rightarrow> string \<Rightarrow> 32 word" where
  "texture_index aTextures aTexturePath =
     (if aTexturePath = [] then 0xFFFFFFFF
      else (case map_of aTextures aTexturePath of None \<Rightarrow> 0xFFFFFFFF | Some info \<Rightarrow> uniqueId info))"

definition baked_material :: "TextureMap \<Rightarrow> 'f InputMaterialInfo \<Rightarrow> BakedMaterialInfo" where
  "baked_material aTextures mat =
     \<lparr> baseColorTextureId = texture_index aTextures (baseColorTexturePath mat),
       roughnessTextureId = texture_index aTextures (roughnessTexturePath mat),
       metalnessTextureId = texture_index aTextures (metalnessTexturePath mat),
       alphaMaskTextureId = texture_index aTextures (alphaMaskTexturePath mat),
       normalMapTextureId = texture_index aTextures (normalMapTexturePath mat) \<rparr>"

definition baked_mesh :: "InputMeshInfo \<Rightarrow> float_bits IndexedMesh \<Rightarrow> BakedMeshData" where
  "baked_mesh mmesh imesh =
     \<lparr> materialId = of_nat (InputMeshInfo.materialIndex mmesh),
       positions = IndexedMesh.vert imesh,
       texcoords = IndexedMesh.text_v imesh,
       normals = IndexedMesh.norm_v imesh,
       tangents = IndexedMesh.tangent imesh,
       indices = IndexedMesh.indices imesh \<rparr>"

text \<open>A model with one texture, one material without alpha mask and normal map, and one
  mesh of one vertex; the bytes of its container; and the model that is loaded from
  them as \<^verbatim>\<open>assets/m.comp5822mesh\<close>.\<close>

definition ex_textures :: TextureMap where
  "ex_textures = [(''src/a.png'', \<lparr> uniqueId = 0, channels = 4, newPath = ''m-tex/a.png'' \<rparr>)]"

definition ex_model :: "float_bits InputModel" where
  "ex_model =
     \<lparr> modelSourcePath = ''src/m.obj'',
       materials =
         [\<lparr> materialName = ''mat'', baseColor = (0, 0, 0), baseRoughness = 0, baseMetalness = 0,
            baseColorTexturePath = ''src/a.png'', roughnessTexturePath = ''src/a.png'',
            metalnessTexturePath = ''src/a.png'', alphaMaskTexturePath = [],
            normalMapTexturePath = [] \<rparr>],
       meshes = [\<lparr> meshName = ''mesh'', materialIndex = 0, vertexStartIndex = 0, vertexCount = 3 \<rparr>],
       positions = [], normals = [], texcoords = [] \<rparr>"

definition ex_indexed :: "float_bits IndexedMesh list" where
  "ex_indexed =
     [\<lparr> IndexedMesh.vert = [(1, 2, 3)], norm_v = [(4, 5, 6)], text_v = [(7, 8)],
        tangent = [(9, 10, 11, 12)], IndexedMesh.indices = [0, 0, 0],
        aabbMin = (1, 2, 3), aabbMax = (1, 2, 3) \<rparr>]"

definition ex_bytes :: "char list" where
  "ex_bytes =
     kFileMagic @ kFileVariant @
     bytes_of_uint32 1 @
       (bytes_of_uint32 12 @ ''m-tex/a.png'' @ [CHR 0x00]) @ [char_of_word (4 :: 8 word)] @
     bytes_of_uint32 1 @
       bytes_of_uint32 0 @ bytes_of_uint32 0 @ bytes_of_uint32 0 @
       bytes_of_uint32 0xFFFFFFFF @ bytes_of_uint32 0xFFFFFFFF @
     bytes_of_uint32 1 @
       bytes_of_uint32 0 @ bytes_of_uint32 1 @ bytes_of_uint32 3 @
       bytes_of_vec3 (1, 2, 3) @ bytes_of_vec3 (4, 5, 6) @ bytes_of_vec2 (7, 8) @
       bytes_of_vec4 (9, 10, 11, 12) @
       bytes_of_uint32 0 @ bytes_of_uint32 0 @ bytes_of_uint32 0"

definition ex_baked :: BakedModel where
  "ex_baked =
     \<lparr> textures = [\<lparr> path = ''assets/m-tex/a.png'' @ [CHR 0x00], channels = 4 \<rparr>],
       materials =
         [\<lparr> baseColorTextureId = 0, roughnessTextureId = 0, metalnessTextureId = 0,
            alphaMaskTextureId = 0xFFFFFFFF, normalMapTextureId = 0xFFFFFFFF \<rparr>],
       meshes =
         [\<lparr> materialId = 0, positions = [(1, 2, 3)], texcoords = [(7, 8)], normals = [(4, 5, 6)],
            tangents = [(9, 10, 11, 12)], indices = [0, 0, 0] \<rparr>] \<rparr>"

section \<open>Rounding to a float\<close>

lemma round_even_of_int: "round_even (of_int n) = n"
  by (simp add: round_even_def)

lemma round_even_cases:
  "round_even r = \<lfloor>r\<rfloor> \<and> r - of_int \<lfloor>r\<rfloor> \<le> 1 / 2 \<or>
   round_even r = \<lfloor>r\<rfloor> + 1 \<and> 1 / 2 \<le> r - of_int \<lfloor>r\<rfloor>"
  unfolding round_even_def Let_def by (simp add: not_less)

lemma round_even_bounds: "real_of_int (round_even r) \<le> r + 1 / 2" "r - 1 / 2 \<le> real_of_int (round_even r)"
  using round_even_cases [of r] by linarith+

lemma round_even_floor: "\<lfloor>r\<rfloor> \<le> round_even r" "round_even r \<le> \<lfloor>r\<rfloor> + 1"
  using round_even_cases [of r] by linarith+

lemma round_even_mono:
  assumes "a \<le> b"
  shows "round_even a \<le> round_even b"
proof (cases "\<lfloor>a\<rfloor> = \<lfloor>b\<rfloor>")
  case True
  then show ?thesis using assms unfolding round_even_def Let_def by auto
next
  case False
  then have "\<lfloor>a\<rfloor> < \<lfloor>b\<rfloor>" using assms floor_mono [of a b] by linarith
  then show ?thesis using round_even_floor(2) [of a] round_even_floor(1) [of b] by linarith
qed

lemma round_even_minus: "round_even (- r) = - round_even r"
proof (cases "r = of_int \<lfloor>r\<rfloor>")
  case True
  then have "round_even r = \<lfloor>r\<rfloor>" "round_even (- r) = - \<lfloor>r\<rfloor>"
    using round_even_of_int [of "\<lfloor>r\<rfloor>"] round_even_of_int [of "- \<lfloor>r\<rfloor>"] by simp_all
  then show ?thesis by simp
next
  case False
  have "of_int \<lfloor>r\<rfloor> < r" using False of_int_floor_le [of r] by linarith
  moreover have "r < of_int \<lfloor>r\<rfloor> + 1" by linarith
  ultimately have f: "\<lfloor>- r\<rfloor> = - \<lfloor>r\<rfloor> - 1"
    by (intro floor_unique; linarith)
  show ?thesis unfolding round_even_def Let_def f by auto
qed

lemma round_even_nonneg: "0 \<le> r \<Longrightarrow> 0 \<le> round_even r"
  using round_even_mono [of 0 r] round_even_of_int [of 0] by simp

lemma round_even_le_twice:
  assumes "0 \<le> r"
  shows "real_of_int (round_even r) \<le> 2 * r"
proof (cases "r \<le> 1 / 2")
  case True
  then have "\<lfloor>r\<rfloor> = 0" using assms by (simp add: floor_eq_iff)
  then have "round_even r = 0" using True unfolding round_even_def Let_def by auto
  then show ?thesis using assms by simp
next
  case False
  then show ?thesis using round_even_bounds(1) [of r] by simp
qed

lemma floor_log2_powi:
  assumes "0 < a"
  shows "\<lfloor>log 2 a\<rfloor> = k \<longleftrightarrow> 2 powi k \<le> a \<and> a < 2 powi (k + 1)"
proof -
  have "(2::real) powr real_of_int k = 2 powi k" "(2::real) powr real_of_int (k + 1) = 2 powi (k + 1)"
    by (rule powr_real_of_int'; simp)+
  then show ?thesis using floor_log_eq_powr_iff [of a 2 k] assms by simp
qed

lemma float_exp_ge: "- 126 \<le> float_exp r"
  by (simp add: float_exp_def)

lemma float_exp_minus: "float_exp (- r) = float_exp r"
  by (simp add: float_exp_def)

lemma float_exp_upper:
  assumes "r \<noteq> 0"
  shows "\<bar>r\<bar> < 2 powi (float_exp r + 1)"
proof -
  have "0 < \<bar>r\<bar>" using assms by simp
  from floor_log2_powi [OF this, of "\<lfloor>log 2 \<bar>r\<bar>\<rfloor>"]
  have "\<bar>r\<bar> < 2 powi (\<lfloor>log 2 \<bar>r\<bar>\<rfloor> + 1)" by simp
  also have "\<dots> \<le> 2 powi (float_exp r + 1)"
    by (rule power_int_increasing) (simp_all add: float_exp_def)
  finally show ?thesis .
qed

lemma float_exp_eq:
  assumes "2 powi e \<le> \<bar>r\<bar>" and "\<bar>r\<bar> < 2 powi (e + 1)" and "- 126 \<le> e"
  shows "float_exp r = e"
proof -
  have "0 < (2::real) powi e" by simp
  then have "0 < \<bar>r\<bar>" using assms(1) by linarith
  from floor_log2_powi [OF this, of e] assms have "\<lfloor>log 2 \<bar>r\<bar>\<rfloor> = e" by simp
  then show ?thesis using assms(3) by (simp add: float_exp_def)
qed

lemma float_exp_lower:
  assumes "2 powi (- 126) \<le> \<bar>r\<bar>"
  shows "2 powi (float_exp r) \<le> \<bar>r\<bar>"
proof -
  have "0 < (2::real) powi (- 126)" by (rule zero_less_power_int) simp
  then have p: "0 < \<bar>r\<bar>" using assms by linarith
  define l where "l = \<lfloor>log 2 \<bar>r\<bar>\<rfloor>"
  from floor_log2_powi [OF p, of l] have b: "2 powi l \<le> \<bar>r\<bar>" "\<bar>r\<bar> < 2 powi (l + 1)"
    by (simp_all add: l_def)
  have "- 126 \<le> l"
  proof (rule ccontr)
    assume "\<not> - 126 \<le> l"
    then have "l + 1 \<le> - 126" by simp
    then have "(2::real) powi (l + 1) \<le> 2 powi (- 126)" by (intro power_int_increasing) simp_all
    then show False using b(2) assms by linarith
  qed
  then have "float_exp r = l" by (simp add: float_exp_def l_def)
  then show ?thesis using b(1) by simp
qed

lemma float_exp_sub:
  assumes "r \<noteq> 0" and "\<bar>r\<bar> < 2 powi (- 126)"
  shows "float_exp r = - 126"
proof -
  have p: "0 < \<bar>r\<bar>" using assms(1) by simp
  define l where "l = \<lfloor>log 2 \<bar>r\<bar>\<rfloor>"
  from floor_log2_powi [OF p, of l] have b: "2 powi l \<le> \<bar>r\<bar>" by (simp add: l_def)
  have "l \<le> - 126"
  proof (rule ccontr)
    assume "\<not> l \<le> - 126"
    then have "- 126 \<le> l" by simp
    then have "(2::real) powi (- 126) \<le> 2 powi l" by (intro power_int_increasing) simp_all
    then show False using b assms(2) by linarith
  qed
  then show ?thesis by (simp add: float_exp_def l_def)
qed

lemma float_exp_mono:
  assumes "a \<noteq> 0" and "\<bar>a\<bar> \<le> \<bar>b\<bar>"
  shows "float_exp a \<le> float_exp b"
proof -
  have "0 < \<bar>a\<bar>" using assms(1) by simp
  then have "log 2 \<bar>a\<bar> \<le> log 2 \<bar>b\<bar>" using assms(2) by simp
  then have "\<lfloor>log 2 \<bar>a\<bar>\<rfloor> \<le> \<lfloor>log 2 \<bar>b\<bar>\<rfloor>" by (rule floor_mono)
  then show ?thesis by (simp add: float_exp_def)
qed

lemma float_ulp_pos: "0 < float_ulp r"
  by (simp add: float_ulp_def)

lemma float_ulp_eq: "float_ulp r = 2 powi (float_exp r) / 2 ^ 23"
  by (simp add: float_ulp_def power_int_diff)

lemma float_ulp_minus: "float_ulp (- r) = float_ulp r"
  by (simp add: float_ulp_def float_exp_minus)

lemma float_rnd_0: "float_rnd 0 = 0"
  by (simp add: float_rnd_def)

lemma float_rnd_minus: "float_rnd (- r) = - float_rnd r"
  by (simp add: float_rnd_def float_ulp_minus round_even_minus)

lemma float_rnd_nonneg:
  assumes "0 \<le> r"
  shows "0 \<le> float_rnd r"
proof -
  have "0 \<le> r / float_ulp r" using assms float_ulp_pos [of r] by simp
  then have "0 \<le> round_even (r / float_ulp r)" by (rule round_even_nonneg)
  then show ?thesis using float_ulp_pos [of r] by (simp add: float_rnd_def)
qed

lemma float_rnd_le_twice:
  assumes "0 \<le> r"
  shows "float_rnd r \<le> 2 * r"
proof (cases "r = 0")
  case True
  then show ?thesis by (simp add: float_rnd_def)
next
  case False
  have u: "0 < float_ulp r" by (rule float_ulp_pos)
  have "0 \<le> r / float_ulp r" using assms u by simp
  then have "real_of_int (round_even (r / float_ulp r)) \<le> 2 * (r / float_ulp r)"
    by (rule round_even_le_twice)
  then have "real_of_int (round_even (r / float_ulp r)) * float_ulp r \<le> 2 * (r / float_ulp r) * float_ulp r"
    using u by (intro mult_right_mono) simp_all
  then show ?thesis using False u by (simp add: float_rnd_def)
qed

lemma float_exp_lower':
  assumes "r \<noteq> 0" and "- 126 < float_exp r"
  shows "2 powi (float_exp r) \<le> \<bar>r\<bar>"
proof -
  have p: "0 < \<bar>r\<bar>" using assms(1) by simp
  define l where "l = \<lfloor>log 2 \<bar>r\<bar>\<rfloor>"
  from floor_log2_powi [OF p, of l] have b: "2 powi l \<le> \<bar>r\<bar>" by (simp add: l_def)
  have "float_exp r = l" using assms(2) by (simp add: float_exp_def l_def max_def split: if_splits)
  then show ?thesis using b by simp
qed

lemma float_rnd_rep:
  assumes r: "r = of_int n * 2 powi e" and n: "\<bar>n\<bar> < 2 ^ 24" and e: "- 149 \<le> e"
  shows "float_rnd r = r"
proof (cases "r = 0")
  case True
  then show ?thesis by (simp add: float_rnd_def)
next
  case False
  define E where "E = float_exp r"
  have le: "E - 23 \<le> e"
  proof (rule ccontr)
    assume "\<not> E - 23 \<le> e"
    then have a: "e + 24 \<le> E" by simp
    then have "- 126 < float_exp r" using e by (simp add: E_def)
    from float_exp_lower' [OF False this] have l: "2 powi E \<le> \<bar>r\<bar>" by (simp add: E_def)
    have "\<bar>r\<bar> = real_of_int \<bar>n\<bar> * 2 powi e" by (simp add: r abs_mult)
    also have "\<dots> < 2 ^ 24 * 2 powi e"
    proof -
      have "real_of_int \<bar>n\<bar> < 2 ^ 24" using n by (metis of_int_less_numeral_power_cancel_iff)
      then show ?thesis by (intro mult_strict_right_mono) simp_all
    qed
    also have "\<dots> = 2 powi (e + 24)" by (simp add: power_int_add)
    also have "\<dots> \<le> 2 powi E" using a by (intro power_int_increasing) simp_all
    finally show False using l by simp
  qed
  define k where "k = nat (e - (E - 23))"
  have ek: "e = (E - 23) + int k" using le by (simp add: k_def)
  have u: "float_ulp r = 2 powi (E - 23)" by (simp add: float_ulp_def E_def)
  have pe: "(2::real) powi e = 2 powi (E - 23) * 2 ^ k"
    by (subst ek) (simp add: power_int_add)
  have re: "r = of_int n * 2 ^ k * 2 powi (E - 23)" by (simp add: r pe)
  have "r / float_ulp r = of_int n * 2 ^ k"
    unfolding u by (subst re) simp
  also have "\<dots> = of_int (n * 2 ^ k)" by simp
  finally have "round_even (r / float_ulp r) = n * 2 ^ k" by (simp only: round_even_of_int)
  then have "float_rnd r = of_int (n * 2 ^ k) * 2 powi (E - 23)"
    using False by (simp add: float_rnd_def u)
  also have "\<dots> = r" using re by simp
  finally show ?thesis .
qed

lemma float_rnd_mono_pos:
  assumes "0 < a" and "a \<le> b"
  shows "float_rnd a \<le> float_rnd b"
proof -
  have a0: "a \<noteq> 0" and b0: "b \<noteq> 0" and bp: "0 < b" using assms by simp_all
  have ee: "float_exp a \<le> float_exp b" using assms by (intro float_exp_mono) simp_all
  show ?thesis
  proof (cases "float_exp a = float_exp b")
    case True
    then have u: "float_ulp b = float_ulp a" by (simp add: float_ulp_def)
    have "a / float_ulp a \<le> b / float_ulp a"
      using assms(2) float_ulp_pos [of a] by (simp add: divide_right_mono)
    then have "round_even (a / float_ulp a) \<le> round_even (b / float_ulp a)" by (rule round_even_mono)
    then have "real_of_int (round_even (a / float_ulp a)) * float_ulp a \<le>
        real_of_int (round_even (b / float_ulp a)) * float_ulp a"
      using float_ulp_pos [of a] by (intro mult_right_mono) simp_all
    then show ?thesis using a0 b0 by (simp add: float_rnd_def u)
  next
    case False
    then have lt: "float_exp a + 1 \<le> float_exp b" using ee by simp
    have ua: "float_ulp a * 2 ^ 24 = 2 powi (float_exp a + 1)"
      by (simp add: float_ulp_eq power_int_add)
    have ub: "float_ulp b * 2 ^ 23 = 2 powi (float_exp b)"
      by (simp add: float_ulp_eq)
    have "a < 2 powi (float_exp a + 1)" using float_exp_upper [OF a0] assms(1) by simp
    then have "a / float_ulp a \<le> 2 ^ 24"
      using float_ulp_pos [of a] ua by (simp add: pos_divide_le_eq mult.commute)
    then have "round_even (a / float_ulp a) \<le> round_even (of_int (2 ^ 24))"
      by (intro round_even_mono) simp
    then have "round_even (a / float_ulp a) \<le> 2 ^ 24" by (simp only: round_even_of_int)
    then have "real_of_int (round_even (a / float_ulp a)) \<le> 2 ^ 24"
      by (metis of_int_le_numeral_power_cancel_iff)
    then have "real_of_int (round_even (a / float_ulp a)) * float_ulp a \<le> 2 ^ 24 * float_ulp a"
      using float_ulp_pos [of a] by (intro mult_right_mono) simp_all
    then have 1: "float_rnd a \<le> 2 powi (float_exp a + 1)"
      using a0 ua by (simp add: float_rnd_def mult.commute)
    have 2: "(2::real) powi (float_exp a + 1) \<le> 2 powi (float_exp b)"
      using lt by (intro power_int_increasing) simp_all
    have "- 126 < float_exp b" using lt float_exp_ge [of a] by linarith
    from float_exp_lower' [OF b0 this] have "2 powi (float_exp b) \<le> b" using bp by simp
    then have "2 ^ 23 \<le> b / float_ulp b"
      using float_ulp_pos [of b] ub by (simp add: pos_le_divide_eq mult.commute)
    then have "round_even (of_int (2 ^ 23)) \<le> round_even (b / float_ulp b)"
      by (intro round_even_mono) simp
    then have "2 ^ 23 \<le> round_even (b / float_ulp b)" by (simp only: round_even_of_int)
    then have "2 ^ 23 \<le> real_of_int (round_even (b / float_ulp b))"
      by (metis numeral_power_le_of_int_cancel_iff)
    then have "2 ^ 23 * float_ulp b \<le> real_of_int (round_even (b / float_ulp b)) * float_ulp b"
      using float_ulp_pos [of b] by (intro mult_right_mono) simp_all
    then have 3: "2 powi (float_exp b) \<le> float_rnd b"
      using b0 ub by (simp add: float_rnd_def mult.commute)
    from 1 2 3 show ?thesis by linarith
  qed
qed

lemma float_rnd_mono:
  assumes "a \<le> b"
  shows "float_rnd a \<le> float_rnd b"
proof -
  consider "0 < a" | "a \<le> 0" "0 \<le> b" | "b < 0" by linarith
  then show ?thesis
  proof cases
    case 1
    then show ?thesis using assms by (rule float_rnd_mono_pos)
  next
    case 2
    have "float_rnd a \<le> 0" using float_rnd_nonneg [of "- a"] 2(1) by (simp add: float_rnd_minus)
    moreover have "0 \<le> float_rnd b" using 2(2) by (rule float_rnd_nonneg)
    ultimately show ?thesis by linarith
  next
    case 3
    then have "float_rnd (- b) \<le> float_rnd (- a)" using assms by (intro float_rnd_mono_pos) simp_all
    then show ?thesis by (simp add: float_rnd_minus)
  qed
qed

lemma float_max_dyadic: "float_max = of_int (2 ^ 24 - 1) * 2 powi 104"
  by (simp add: float_max_def)

lemma float_max_pos: "0 < float_max"
  by (simp add: float_max_def)

lemma float_rnd_float_max: "float_rnd float_max = float_max"
  by (rule float_rnd_rep [OF float_max_dyadic]) simp_all

lemma fround_Fin_iff: "fround r = Fin q \<longleftrightarrow> q = float_rnd r \<and> \<bar>float_rnd r\<bar> \<le> float_max"
  by (auto simp: fround_def)

lemma is_float_iff: "is_float r \<longleftrightarrow> float_rnd r = r \<and> \<bar>r\<bar> \<le> float_max"
  by (auto simp: is_float_def fround_Fin_iff)

lemma is_float_float_max: "is_float float_max"
  using float_max_pos by (simp add: is_float_iff float_rnd_float_max)

lemma is_float_minus: "is_float (- r) \<longleftrightarrow> is_float r"
  by (auto simp: is_float_iff float_rnd_minus)

lemma is_float_dyadic:
  assumes "\<bar>n\<bar> < 2 ^ 24" and "- 149 \<le> e" and "e \<le> 104"
  shows "is_float (of_int n * 2 powi e)"
proof -
  have r: "float_rnd (of_int n * 2 powi e) = of_int n * 2 powi e"
    by (rule float_rnd_rep [OF refl assms(1,2)])
  have "\<bar>n\<bar> \<le> 2 ^ 24 - 1" using assms(1) by simp
  then have "real_of_int \<bar>n\<bar> \<le> real_of_int (2 ^ 24 - 1)" by (simp only: of_int_le_iff)
  moreover have "(2::real) powi e \<le> 2 powi 104" using assms(3) by (intro power_int_increasing) simp_all
  ultimately have "real_of_int \<bar>n\<bar> * 2 powi e \<le> real_of_int (2 ^ 24 - 1) * 2 powi 104"
    by (intro mult_mono) simp_all
  then have "\<bar>of_int n * 2 powi e\<bar> \<le> float_max"
    by (simp add: abs_mult float_max_dyadic)
  then show ?thesis using r by (simp add: is_float_iff)
qed

lemma is_float_0: "is_float 0"
  by (simp add: is_float_iff float_rnd_0 float_max_def)

lemma is_float_float_min: "is_float float_min"
  using is_float_dyadic [of 1 "- 126"] by (simp add: float_min_def power_int_minus_divide)

lemma float_rnd_le:
  assumes "a \<le> b" and "is_float b"
  shows "float_rnd a \<le> b"
  using float_rnd_mono [OF assms(1)] assms(2) by (simp add: is_float_iff)

lemma float_rnd_ge:
  assumes "b \<le> a" and "is_float b"
  shows "b \<le> float_rnd a"
  using float_rnd_mono [OF assms(1)] assms(2) by (simp add: is_float_iff)

lemma fround_in_range:
  assumes "\<bar>a\<bar> \<le> float_max"
  shows "fround a = Fin (float_rnd a)" and "\<bar>float_rnd a\<bar> \<le> float_max"
proof -
  have "float_rnd a \<le> float_max"
    using assms by (intro float_rnd_le is_float_float_max) simp
  moreover have "- float_max \<le> float_rnd a"
    using assms by (intro float_rnd_ge) (simp_all add: is_float_minus is_float_float_max)
  ultimately show "\<bar>float_rnd a\<bar> \<le> float_max" by simp
  then show "fround a = Fin (float_rnd a)" by (simp add: fround_Fin_iff)
qed

lemma round_even_eq:
  assumes "of_int n - 1 / 2 < r" and "r < of_int n + 1 / 2"
  shows "round_even r = n"
proof -
  have "real_of_int (round_even r) < of_int n + 1" "real_of_int n - 1 < of_int (round_even r)"
    using round_even_bounds [of r] assms by linarith+
  then have "round_even r < n + 1" "n - 1 < round_even r" by linarith+
  then show ?thesis by simp
qed

lemma float_rnd_eval:
  assumes "2 powi e \<le> \<bar>r\<bar>" and "\<bar>r\<bar> < 2 powi (e + 1)" and "- 126 \<le> e"
    and "of_int n - 1 / 2 < r / 2 powi (e - 23)" and "r / 2 powi (e - 23) < of_int n + 1 / 2"
  shows "float_rnd r = of_int n * 2 powi (e - 23)"
proof -
  have "0 < (2::real) powi e" by simp
  then have "0 < \<bar>r\<bar>" using assms(1) by linarith
  then have r0: "r \<noteq> 0" by simp
  have u: "float_ulp r = 2 powi (e - 23)"
    using float_exp_eq [OF assms(1-3)] by (simp add: float_ulp_def)
  show ?thesis using r0 round_even_eq [OF assms(4,5)] by (simp add: float_rnd_def u)
qed

lemma fsub_Fin: "fsub (Fin a) (Fin b) = fround (a - b)"
  by (simp add: fsub_def)


lemma float_rnd_abs_le:
  assumes "\<bar>a\<bar> \<le> eps" and "is_float eps"
  shows "\<bar>float_rnd a\<bar> \<le> eps"
proof -
  have "float_rnd a \<le> eps" using assms by (intro float_rnd_le) simp_all
  moreover have "- eps \<le> float_rnd a" using assms by (intro float_rnd_ge) (simp_all add: is_float_minus)
  ultimately show ?thesis by simp
qed



lemma is_float_of_int: "\<bar>n\<bar> < 2 ^ 24 \<Longrightarrow> is_float (of_int n)"
  using is_float_dyadic [of n 0] by simp

lemma fround_numeral: "numeral k < (2 ^ 24 :: int) \<Longrightarrow> fround (numeral k) = Fin (numeral k)"
  using is_float_of_int [of "numeral k"] by (simp add: is_float_def)

lemma fround_one: "fround 1 = Fin 1"
  using is_float_of_int [of 1] by (simp add: is_float_def)

lemma fround_zero: "fround 0 = Fin 0"
  using is_float_0 by (simp add: is_float_def)

lemma fround_minus: "fround (- r) = fneg (fround r)"
  using float_max_pos by (auto simp: fround_def float_rnd_minus)

section \<open>Mergeability is a per-axis test\<close>

lemma all_less3: "(\<forall>k<3. P k) \<longleftrightarrow> P (0::nat) \<and> P 1 \<and> P 2"
proof -
  have "{k::nat. k < 3} = {0, 1, 2}" by auto
  then have "(\<forall>k<3. P k) \<longleftrightarrow> (\<forall>k\<in>{0,1,2}. P k)" by blast
  then show ?thesis by simp
qed




section \<open>The index buffer and the vertex mapping\<close>

lemma foldM_append:
  "foldM f (xs @ ys) s = (case foldM f xs s of None \<Rightarrow> None | Some s' \<Rightarrow> foldM f ys s')"
  by (induction xs arbitrary: s) (auto split: option.splits)

lemma foldM_invariant:
  assumes "foldM f xs s = Some s'" and "P s"
    and "\<And>a t t'. a \<in> set xs \<Longrightarrow> P t \<Longrightarrow> f a t = Some t' \<Longrightarrow> P t'"
  shows "P s'"
  using assms
proof (induction xs arbitrary: s)
  case Nil
  then show ?case by simp
next
  case (Cons a xs)
  from Cons.prems(1) obtain t where t: "f a s = Some t" "foldM f xs t = Some s'"
    by (auto split: option.splits)
  have "P t" using Cons.prems(2,3) t(1) by auto
  then show ?case using Cons.IH [OF t(2)] Cons.prems(3) by auto
qed

lemma foldM_total:
  assumes "P s"
    and "\<And>a t. a \<in> set xs \<Longrightarrow> P t \<Longrightarrow> \<exists>t'. f a t = Some t' \<and> P t'"
  shows "\<exists>s'. foldM f xs s = Some s' \<and> P s'"
  using assms
proof (induction xs arbitrary: s)
  case Nil
  then show ?case by simp
next
  case (Cons a xs)
  from Cons.prems obtain t where t: "f a s = Some t" "P t" by fastforce
  have "\<exists>s'. foldM f xs t = Some s' \<and> P s'"
    using Cons.IH [OF t(2)] Cons.prems(2) by auto
  then show ?case using t(1) by simp
qed

lemma unat_of_nat_le: "unat (of_nat n :: 32 word) \<le> n"
  by (simp add: unat_of_nat)

lemma merge_candidate_cases:
  assumes "merge_candidate aSoup eps i self idx st = Some st'"
  shows "st' = st \<or>
     (idx \<noteq> i \<and> idx < length (collapseMap st) \<and> collapseMap st ! idx = unassigned \<and>
        ((merged st \<and> st' = st \<lparr> collapseMap := (collapseMap st) [idx := target st] \<rparr>) \<or>
         (\<not> merged st \<and>
            st' = st \<lparr> nextVertex := nextVertex st + 1,
                       aVertices := aVertices st @ [i],
                       collapseMap := (collapseMap st) [i := nextVertex st, idx := nextVertex st],
                       aIndices := aIndices st @ [of_nat (nextVertex st)],
                       target := nextVertex st,
                       merged := True \<rparr>)))"
  using assms
  by (auto simp: merge_candidate_def elem_def Let_def split: if_splits bind_splits)


lemma merge_candidate_inv:
  assumes "merge_candidate aSoup eps i self idx st = Some st'"
    and "collapse_inv N st" and "i < N"
  shows "collapse_inv N st'"
proof -
  have le: "unat (of_nat (nextVertex st) :: 32 word) < Suc (nextVertex st)"
    using unat_of_nat_le [of "nextVertex st"] by simp
  from merge_candidate_cases [OF assms(1)]
  consider "st' = st"
    | "idx < length (collapseMap st)" "merged st"
      "st' = st \<lparr> collapseMap := (collapseMap st) [idx := target st] \<rparr>"
    | "idx < length (collapseMap st)" "\<not> merged st"
      "st' = st \<lparr> nextVertex := nextVertex st + 1,
                       aVertices := aVertices st @ [i],
                       collapseMap := (collapseMap st) [i := nextVertex st, idx := nextVertex st],
                       aIndices := aIndices st @ [of_nat (nextVertex st)],
                       target := nextVertex st,
                       merged := True \<rparr>"
    by blast
  then show ?thesis
  proof cases
    case 1
    then show ?thesis using assms(2) by simp
  next
    case 2
    then show ?thesis using assms(2,3)
      by (auto simp: collapse_inv_def nth_list_update)
  next
    case 3
    then show ?thesis using assms(2,3) le
      by (auto simp: collapse_inv_def nth_list_update less_Suc_eq)
  qed
qed

lemma merge_candidate_count:
  assumes "merge_candidate aSoup eps i self idx st = Some st'"
    and "length (aIndices st) = L + (if merged st then 1 else 0)"
  shows "length (aIndices st') = L + (if merged st' then 1 else 0)"
  using merge_candidate_cases [OF assms(1)] assms(2) by auto

lemma scan_inv:
  assumes "foldM (merge_candidate aSoup eps i self) cs st = Some st'"
    and "collapse_inv N st" and "i < N"
    and "length (aIndices st) = L + (if merged st then 1 else 0)"
  shows "collapse_inv N st' \<and> length (aIndices st') = L + (if merged st' then 1 else 0)"
proof (rule foldM_invariant
        [where P = "\<lambda>t. collapse_inv N t \<and> length (aIndices t) = L + (if merged t then 1 else 0)",
          OF assms(1)])
  show "collapse_inv N st \<and> length (aIndices st) = L + (if merged st then 1 else 0)"
    using assms by simp
next
  fix a t t'
  assume "collapse_inv N t \<and> length (aIndices t) = L + (if merged t then 1 else 0)"
    and "merge_candidate aSoup eps i self a t = Some t'"
  then show "collapse_inv N t' \<and> length (aIndices t') = L + (if merged t' then 1 else 0)"
    using merge_candidate_inv [of aSoup eps i self a t t' N]
      merge_candidate_count [of aSoup eps i self a t t' L] assms(3) by blast
qed

lemma collapse_inv_unmerged:
  "collapse_inv N st \<Longrightarrow> collapse_inv N (st \<lparr> merged := False, target := t \<rparr>)"
  by (simp add: collapse_inv_def)

lemma process_vertex_inv:
  assumes "process_vertex gHash aVM aD aSoup eps i st = Some st'"
    and "collapse_inv N st" and "i < N"
  shows "collapse_inv N st' \<and> length (aIndices st') = Suc (length (aIndices st))"
proof (cases "collapseMap st ! i = unassigned")
  case False
  then have "st' = st \<lparr> aIndices := aIndices st @ [of_nat (collapseMap st ! i)] \<rparr>"
    using assms(1) by (auto simp: process_vertex_def elem_def split: if_splits bind_splits)
  moreover have "unat (of_nat (collapseMap st ! i) :: 32 word) < nextVertex st"
    using False assms(2,3) unat_of_nat_le [of "collapseMap st ! i"]
    by (fastforce simp: collapse_inv_def)
  ultimately show ?thesis using assms(2) by (auto simp: collapse_inv_def)
next
  case True
  then obtain self dp st1 where
    scan: "foldM (merge_candidate aSoup eps i self) (candidates gHash aVM dp)
             (st \<lparr> merged := False, target := unassigned \<rparr>) = Some st1"
    and fin: "st' = (if \<not> merged st1 then
                 st1 \<lparr> nextVertex := nextVertex st1 + 1,
                       collapseMap := (collapseMap st1) [i := nextVertex st1],
                       aVertices := aVertices st1 @ [i],
                       aIndices := aIndices st1 @ [of_nat (nextVertex st1)] \<rparr>
               else st1)"
    using assms(1)
    by (auto simp: process_vertex_def elem_def Let_def split: if_splits bind_splits)
  have s1: "collapse_inv N st1"
    "length (aIndices st1) = length (aIndices st) + (if merged st1 then 1 else 0)"
    using scan_inv [OF scan collapse_inv_unmerged [OF assms(2)] assms(3), of "length (aIndices st)"]
    by simp_all
  have le: "unat (of_nat (nextVertex st1) :: 32 word) < Suc (nextVertex st1)"
    using unat_of_nat_le [of "nextVertex st1"] by simp
  show ?thesis
  proof (cases "merged st1")
    case True
    then show ?thesis using fin s1 by simp
  next
    case False
    then show ?thesis using fin s1 assms(3) le
      by (auto simp: collapse_inv_def nth_list_update less_Suc_eq)
  qed
qed

lemma collapse_init_inv: "collapse_inv (length (TriangleSoup.vert aSoup)) (collapse_init aSoup)"
  by (simp add: collapse_inv_def collapse_init_def)

lemma collapse_upto_Suc:
  "collapse_upto gHash aVM aD aSoup eps (Suc n) =
     (case collapse_upto gHash aVM aD aSoup eps n of
        None \<Rightarrow> None
      | Some st \<Rightarrow> process_vertex gHash aVM aD aSoup eps n st)"
  by (simp add: collapse_upto_def foldM_append split: option.splits)

lemma collapse_upto_inv:
  assumes "collapse_upto gHash aVM aD aSoup eps n = Some st"
    and "n \<le> length (TriangleSoup.vert aSoup)"
  shows "collapse_inv (length (TriangleSoup.vert aSoup)) st \<and> length (aIndices st) = n"
  using assms
proof (induction n arbitrary: st)
  case 0
  then have "st = collapse_init aSoup" by (simp add: collapse_upto_def)
  then show ?case using collapse_init_inv [of aSoup]
    by (simp add: collapse_init_def)
next
  case (Suc n)
  from Suc.prems(1) obtain t where
    t: "collapse_upto gHash aVM aD aSoup eps n = Some t"
       "process_vertex gHash aVM aD aSoup eps n t = Some st"
    by (auto simp: collapse_upto_Suc split: option.splits)
  have "collapse_inv (length (TriangleSoup.vert aSoup)) t \<and> length (aIndices t) = n"
    using Suc.IH [OF t(1)] Suc.prems(2) by simp
  then show ?case using process_vertex_inv [OF t(2)] Suc.prems(2) by auto
qed


lemma mergable_total:
  assumes "wf_soup s" and "aI < length (TriangleSoup.vert s)" and "aJ < length (TriangleSoup.vert s)"
  shows "\<exists>b. mergable' s aI aJ p q eps = Some b"
proof -
  have t: "aI < length (TriangleSoup.text_v s)" "aJ < length (TriangleSoup.text_v s)"
    using assms by (simp_all add: wf_soup_def)
  have n: "TriangleSoup.norm_v s \<noteq> [] \<Longrightarrow>
      aI < length (TriangleSoup.norm_v s) \<and> aJ < length (TriangleSoup.norm_v s)"
    using assms by (auto simp: wf_soup_def)
  show ?thesis using t n by (auto simp: mergable'_def elem_def)
qed

lemma merge_candidate_total:
  assumes "wf_soup s" and "i < length (TriangleSoup.vert s)" and "idx < length (TriangleSoup.vert s)"
    and "length (collapseMap st) = length (TriangleSoup.vert s)"
  shows "\<exists>st'. merge_candidate s eps i self idx st = Some st'"
proof -
  obtain b where "mergable' s i idx self (TriangleSoup.vert s ! idx) eps = Some b"
    using mergable_total [OF assms(1-3)] by blast
  then show ?thesis using assms(3,4)
    by (simp add: merge_candidate_def elem_def Let_def)
qed

lemma candidates_in_range:
  assumes "vm_in_range aVM N" and "idx \<in> set (candidates gHash aVM dp)"
  shows "idx < N"
  using assms by (auto simp: candidates_def equal_range_def vm_in_range_def)

lemma process_vertex_total:
  assumes "wf_soup s" and "vm_in_range aVM (length (TriangleSoup.vert s))"
    and "i < length (TriangleSoup.vert s)"
    and "discretize aD (TriangleSoup.vert s ! i) \<noteq> None"
    and "collapse_inv (length (TriangleSoup.vert s)) st"
  shows "\<exists>st'. process_vertex gHash aVM aD s eps i st = Some st'"
proof (cases "collapseMap st ! i = unassigned")
  case False
  then have "collapseMap st ! i < length (aVertices st)"
    using assms(3,5) by (simp add: collapse_inv_def)
  then show ?thesis using False assms(3,5)
    by (simp add: process_vertex_def elem_def collapse_inv_def)
next
  case True
  obtain dp where dp: "discretize aD (TriangleSoup.vert s ! i) = Some dp"
    using assms(4) by blast
  let ?N = "length (TriangleSoup.vert s)"
  let ?self = "TriangleSoup.vert s ! i"
  have "\<exists>st1. foldM (merge_candidate s eps i ?self) (candidates gHash aVM dp)
            (st \<lparr> merged := False, target := unassigned \<rparr>) = Some st1 \<and> collapse_inv ?N st1"
  proof (rule foldM_total [where P = "collapse_inv ?N"])
    show "collapse_inv ?N (st \<lparr> merged := False, target := unassigned \<rparr>)"
      using assms(5) by (rule collapse_inv_unmerged)
  next
    fix a t
    assume a: "a \<in> set (candidates gHash aVM dp)" and t: "collapse_inv ?N t"
    have "a < ?N" using candidates_in_range [OF assms(2) a] .
    moreover have "length (collapseMap t) = ?N" using t by (simp add: collapse_inv_def)
    ultimately obtain t' where t': "merge_candidate s eps i ?self a t = Some t'"
      using merge_candidate_total [OF assms(1,3)] by blast
    then show "\<exists>t'. merge_candidate s eps i ?self a t = Some t' \<and> collapse_inv ?N t'"
      using merge_candidate_inv [OF t' t assms(3)] by blast
  qed
  then obtain st1 where "foldM (merge_candidate s eps i ?self) (candidates gHash aVM dp)
            (st \<lparr> merged := False, target := unassigned \<rparr>) = Some st1" by blast
  then show ?thesis using True dp assms(3,5)
    by (simp add: process_vertex_def elem_def collapse_inv_def Let_def)
qed

lemma collapse_upto_total:
  assumes "wf_soup s" and "vm_in_range aVM (length (TriangleSoup.vert s))"
    and "list_all (\<lambda>v. discretize aD v \<noteq> None) (TriangleSoup.vert s)"
    and "n \<le> length (TriangleSoup.vert s)"
  shows "\<exists>st. collapse_upto gHash aVM aD s eps n = Some st"
  using assms(4)
proof (induction n)
  case 0
  then show ?case by (simp add: collapse_upto_def)
next
  case (Suc n)
  then obtain t where t: "collapse_upto gHash aVM aD s eps n = Some t" by auto
  have inv: "collapse_inv (length (TriangleSoup.vert s)) t"
    using collapse_upto_inv [OF t] Suc.prems by simp
  have "discretize aD (TriangleSoup.vert s ! n) \<noteq> None"
    using assms(3) Suc.prems by (simp add: list_all_length)
  then show ?case
    using process_vertex_total [OF assms(1,2) _ _ inv, of n aD gHash eps] Suc.prems t
    by (simp add: collapse_upto_Suc)
qed

lemma discretize_dis3:
  "discretize dis3 (0, 0, 0) = Some \<lparr> x = 4, y = 4, z = 4 \<rparr>"
  "discretize dis3 (1, 0, 0) = Some \<lparr> x = 8, y = 4, z = 4 \<rparr>"
  by (simp_all add: dis3_def discretize_def to_uint32_def fsub_Fin fround_numeral fround_one)

text \<open>
  Claim C1.  For a soup with parallel arrays, a vicinity map over its vertices and a
  discretizer that is defined on its positions, \<open>collapse_vertices'\<close> returns, for every
  tolerance: an index buffer as long as the soup, a vertex mapping as long as the number
  of slots it returns, and only indices below that number.
\<close>

theorem collapse_vertices_index_validity:
  assumes "wf_soup aSoup"
    and "vm_in_range aVM (length (TriangleSoup.vert aSoup))"
    and "list_all (\<lambda>v. discretize aD v \<noteq> None) (TriangleSoup.vert aSoup)"
  shows "\<exists>indices vertexMapping verts.
     collapse_vertices' gHash aVM aD aSoup eps = Some (indices, vertexMapping, verts) \<and>
     length indices = length (TriangleSoup.vert aSoup) \<and>
     length vertexMapping = verts \<and>
     (\<forall>ix\<in>set indices. unat ix < verts)"
proof -
  obtain st where st: "collapse_upto gHash aVM aD aSoup eps (length (TriangleSoup.vert aSoup)) = Some st"
    using collapse_upto_total [OF assms order_refl] by blast
  have "collapse_inv (length (TriangleSoup.vert aSoup)) st \<and>
      length (aIndices st) = length (TriangleSoup.vert aSoup)"
    using collapse_upto_inv [OF st] by simp
  then show ?thesis using st by (simp add: collapse_vertices'_def collapse_inv_def)
qed

theorem collapse_vertices_index_validity_witness:
  "wf_soup soup3 \<and> vm_in_range vm3 (length (TriangleSoup.vert soup3)) \<and>
   list_all (\<lambda>v. discretize dis3 v \<noteq> None) (TriangleSoup.vert soup3) \<and>
   (\<exists>indices vertexMapping verts.
      collapse_vertices' (\<lambda>w. w) vm3 dis3 soup3 (1 / 8) = Some (indices, vertexMapping, verts) \<and>
      length indices = length (TriangleSoup.vert soup3) \<and>
      length vertexMapping = verts \<and>
      (\<forall>ix\<in>set indices. unat ix < verts))"
proof -
  have h1: "wf_soup soup3" by (simp add: wf_soup_def soup3_def)
  have h2: "vm_in_range vm3 (length (TriangleSoup.vert soup3))"
    by (simp add: vm_in_range_def vm3_def soup3_def)
  have h3: "list_all (\<lambda>v. discretize dis3 v \<noteq> None) (TriangleSoup.vert soup3)"
    by (simp add: soup3_def discretize_dis3)
  show ?thesis
    using h1 h2 h3 collapse_vertices_index_validity [OF h1 h2 h3, of "\<lambda>w. w" "1 / 8"]
    by blast
qed

section \<open>Entries of the collapse map are assigned once\<close>

lemma keeps_assigned_refl: "keeps_assigned c c"
  by (simp add: keeps_assigned_def)

lemma keeps_assigned_trans:
  "keeps_assigned a b \<Longrightarrow> keeps_assigned b c \<Longrightarrow> keeps_assigned a c"
  by (auto simp: keeps_assigned_def)

lemma merge_candidate_skip:
  assumes "idx < length (collapseMap st)" and "idx = i \<or> collapseMap st ! idx \<noteq> unassigned"
  shows "merge_candidate aSoup eps i self idx st = Some st"
  using assms by (auto simp: merge_candidate_def elem_def)

lemma merge_candidate_keeps:
  assumes "merge_candidate aSoup eps i self idx st = Some st'"
    and "\<not> merged st \<longrightarrow> collapseMap st ! i = unassigned"
  shows "keeps_assigned (collapseMap st) (collapseMap st') \<and>
     (\<not> merged st' \<longrightarrow> collapseMap st' ! i = unassigned)"
proof -
  have upd: "\<And>c v (k::nat) j. c ! j = unassigned \<Longrightarrow> c ! k \<noteq> unassigned \<Longrightarrow> c [j := v] ! k = c ! k"
    by (metis nth_list_update_neq)
  from merge_candidate_cases [OF assms(1)] assms(2) show ?thesis
    by (auto simp: keeps_assigned_def upd)
qed

lemma scan_keeps:
  assumes "foldM (merge_candidate aSoup eps i self) cs st = Some st'"
    and "\<not> merged st \<longrightarrow> collapseMap st ! i = unassigned"
  shows "keeps_assigned (collapseMap st) (collapseMap st') \<and>
     (\<not> merged st' \<longrightarrow> collapseMap st' ! i = unassigned)"
proof (rule foldM_invariant
    [where P = "\<lambda>t. keeps_assigned (collapseMap st) (collapseMap t) \<and>
                   (\<not> merged t \<longrightarrow> collapseMap t ! i = unassigned)", OF assms(1)])
  show "keeps_assigned (collapseMap st) (collapseMap st) \<and>
      (\<not> merged st \<longrightarrow> collapseMap st ! i = unassigned)"
    using assms(2) by (simp add: keeps_assigned_refl)
next
  fix a t t'
  assume t: "keeps_assigned (collapseMap st) (collapseMap t) \<and>
      (\<not> merged t \<longrightarrow> collapseMap t ! i = unassigned)"
    and step: "merge_candidate aSoup eps i self a t = Some t'"
  show "keeps_assigned (collapseMap st) (collapseMap t') \<and>
      (\<not> merged t' \<longrightarrow> collapseMap t' ! i = unassigned)"
    using merge_candidate_keeps [OF step] t keeps_assigned_trans by blast
qed

lemma process_vertex_keeps:
  assumes "process_vertex gHash aVM aD aSoup eps i st = Some st'"
  shows "keeps_assigned (collapseMap st) (collapseMap st')"
proof (cases "collapseMap st ! i = unassigned")
  case False
  then have "st' = st \<lparr> aIndices := aIndices st @ [of_nat (collapseMap st ! i)] \<rparr>"
    using assms by (auto simp: process_vertex_def elem_def split: if_splits bind_splits)
  then show ?thesis by (simp add: keeps_assigned_refl)
next
  case True
  then obtain self dp st1 where
    scan: "foldM (merge_candidate aSoup eps i self) (candidates gHash aVM dp)
             (st \<lparr> merged := False, target := unassigned \<rparr>) = Some st1"
    and fin: "st' = (if \<not> merged st1 then
                 st1 \<lparr> nextVertex := nextVertex st1 + 1,
                       collapseMap := (collapseMap st1) [i := nextVertex st1],
                       aVertices := aVertices st1 @ [i],
                       aIndices := aIndices st1 @ [of_nat (nextVertex st1)] \<rparr>
               else st1)"
    using assms
    by (auto simp: process_vertex_def elem_def Let_def split: if_splits bind_splits)
  have k: "keeps_assigned (collapseMap st) (collapseMap st1)"
    "\<not> merged st1 \<longrightarrow> collapseMap st1 ! i = unassigned"
    using scan_keeps [OF scan] True by simp_all
  have upd: "\<And>c v (k::nat) j. c ! j = unassigned \<Longrightarrow> c ! k \<noteq> unassigned \<Longrightarrow> c [j := v] ! k = c ! k"
    by (metis nth_list_update_neq)
  have "keeps_assigned (collapseMap st1) (collapseMap st')"
    using fin k(2) by (auto simp: keeps_assigned_def upd)
  then show ?thesis using k(1) keeps_assigned_trans by blast
qed

lemma collapse_upto_keeps:
  assumes "m \<le> n"
    and "collapse_upto gHash aVM aD aSoup eps m = Some stm"
    and "collapse_upto gHash aVM aD aSoup eps n = Some stn"
  shows "keeps_assigned (collapseMap stm) (collapseMap stn)"
  using assms
proof (induction n arbitrary: stn)
  case 0
  then show ?case by (simp add: keeps_assigned_refl)
next
  case (Suc n)
  show ?case
  proof (cases "m = Suc n")
    case True
    then show ?thesis using Suc.prems by (simp add: keeps_assigned_refl)
  next
    case False
    from Suc.prems(3) obtain t where
      t: "collapse_upto gHash aVM aD aSoup eps n = Some t"
         "process_vertex gHash aVM aD aSoup eps n t = Some stn"
      by (auto simp: collapse_upto_Suc split: option.splits)
    have "keeps_assigned (collapseMap stm) (collapseMap t)"
      using Suc.IH [OF _ Suc.prems(2) t(1)] False Suc.prems(1) by simp
    then show ?thesis using process_vertex_keeps [OF t(2)] keeps_assigned_trans by blast
  qed
qed

text \<open>A slot is below the number of vertices seen so far, hence never the marker.\<close>

lemma merge_candidate_slot:
  assumes "merge_candidate aSoup eps i self idx st = Some st'"
    and "i < length (collapseMap st)"
    and "if merged st then collapseMap st ! i \<noteq> unassigned \<and> nextVertex st \<le> Suc L
         else nextVertex st \<le> L"
    and "L < unassigned"
  shows "length (collapseMap st') = length (collapseMap st) \<and>
    (if merged st' then collapseMap st' ! i \<noteq> unassigned \<and> nextVertex st' \<le> Suc L
     else nextVertex st' \<le> L)"
  using merge_candidate_cases [OF assms(1)] assms(2-4)
  by (auto simp: nth_list_update split: if_splits)

lemma scan_slot:
  assumes "foldM (merge_candidate aSoup eps i self) cs st = Some st'"
    and "i < length (collapseMap st)"
    and "if merged st then collapseMap st ! i \<noteq> unassigned \<and> nextVertex st \<le> Suc L
         else nextVertex st \<le> L"
    and "L < unassigned"
  shows "length (collapseMap st') = length (collapseMap st) \<and>
    (if merged st' then collapseMap st' ! i \<noteq> unassigned \<and> nextVertex st' \<le> Suc L
     else nextVertex st' \<le> L)"
proof (rule foldM_invariant
    [where P = "\<lambda>t. length (collapseMap t) = length (collapseMap st) \<and>
      (if merged t then collapseMap t ! i \<noteq> unassigned \<and> nextVertex t \<le> Suc L
       else nextVertex t \<le> L)", OF assms(1)])
  show "length (collapseMap st) = length (collapseMap st) \<and>
      (if merged st then collapseMap st ! i \<noteq> unassigned \<and> nextVertex st \<le> Suc L
       else nextVertex st \<le> L)"
    using assms(3) by simp
next
  fix a t t'
  assume t: "length (collapseMap t) = length (collapseMap st) \<and>
      (if merged t then collapseMap t ! i \<noteq> unassigned \<and> nextVertex t \<le> Suc L
       else nextVertex t \<le> L)"
    and step: "merge_candidate aSoup eps i self a t = Some t'"
  have "i < length (collapseMap t)" using t assms(2) by simp
  from merge_candidate_slot [OF step this _ assms(4)] t
  show "length (collapseMap t') = length (collapseMap st) \<and>
      (if merged t' then collapseMap t' ! i \<noteq> unassigned \<and> nextVertex t' \<le> Suc L
       else nextVertex t' \<le> L)"
    by simp
qed

lemma process_vertex_slot:
  assumes "process_vertex gHash aVM aD aSoup eps i st = Some st'"
    and "nextVertex st \<le> i" and "i < unassigned"
  shows "collapseMap st' ! i \<noteq> unassigned \<and> nextVertex st' \<le> Suc i"
proof (cases "collapseMap st ! i = unassigned")
  case False
  then have "st' = st \<lparr> aIndices := aIndices st @ [of_nat (collapseMap st ! i)] \<rparr>"
    using assms(1) by (auto simp: process_vertex_def elem_def split: if_splits bind_splits)
  then show ?thesis using False assms(2) by simp
next
  case True
  then obtain self dp st1 where
    scan: "foldM (merge_candidate aSoup eps i self) (candidates gHash aVM dp)
             (st \<lparr> merged := False, target := unassigned \<rparr>) = Some st1"
    and fin: "st' = (if \<not> merged st1 then
                 st1 \<lparr> nextVertex := nextVertex st1 + 1,
                       collapseMap := (collapseMap st1) [i := nextVertex st1],
                       aVertices := aVertices st1 @ [i],
                       aIndices := aIndices st1 @ [of_nat (nextVertex st1)] \<rparr>
               else st1)"
    and len: "i < length (collapseMap st)"
    using assms(1)
    by (auto simp: process_vertex_def elem_def Let_def split: if_splits bind_splits)
  have "length (collapseMap st1) = length (collapseMap st) \<and>
    (if merged st1 then collapseMap st1 ! i \<noteq> unassigned \<and> nextVertex st1 \<le> Suc i
     else nextVertex st1 \<le> i)"
    using scan_slot [OF scan, of i] len assms(2,3) by simp
  then show ?thesis using fin len assms(3) by (auto split: if_splits)
qed

lemma collapse_upto_slots:
  assumes "collapse_upto gHash aVM aD aSoup eps n = Some st"
    and "n \<le> unassigned"
  shows "nextVertex st \<le> n \<and> (\<forall>k<n. k < length (collapseMap st) \<and> collapseMap st ! k \<noteq> unassigned)"
  using assms
proof (induction n arbitrary: st)
  case 0
  then have "st = collapse_init aSoup" by (simp add: collapse_upto_def)
  then show ?case by (simp add: collapse_init_def)
next
  case (Suc n)
  from Suc.prems(1) obtain t where
    t: "collapse_upto gHash aVM aD aSoup eps n = Some t"
       "process_vertex gHash aVM aD aSoup eps n t = Some st"
    by (auto simp: collapse_upto_Suc split: option.splits)
  have ih: "nextVertex t \<le> n" "\<forall>k<n. k < length (collapseMap t) \<and> collapseMap t ! k \<noteq> unassigned"
    using Suc.IH [OF t(1)] Suc.prems(2) by simp_all
  have new: "collapseMap st ! n \<noteq> unassigned \<and> nextVertex st \<le> Suc n"
    using process_vertex_slot [OF t(2) ih(1)] Suc.prems(2) by simp
  have keep: "keeps_assigned (collapseMap t) (collapseMap st)"
    using process_vertex_keeps [OF t(2)] .
  have nlen: "n < length (collapseMap t)"
    using t(2) by (auto simp: process_vertex_def elem_def split: if_splits bind_splits)
  have "\<forall>k<Suc n. k < length (collapseMap st) \<and> collapseMap st ! k \<noteq> unassigned"
    using ih(2) new keep nlen by (auto simp: keeps_assigned_def less_Suc_eq)
  then show ?case using new by simp
qed


text \<open>
  Claim C6.  Take a run of \<open>collapse_vertices'\<close> on a soup whose size fits
  \<^verbatim>\<open>std::size_t\<close>, at the head of the loop for vertex \<open>n\<close>, and any earlier head \<open>m\<close>.
  Every entry of the collapse map that had a slot at \<open>m\<close> still has the same slot at
  \<open>n\<close>; every vertex below \<open>n\<close> has a slot; the loop body for \<open>n\<close> changes no entry that has
  a slot and gives \<open>n\<close> one; and within the scan of \<open>n\<close>, after any candidates
  \<open>pre\<close>, the step for the next candidate \<open>idx\<close> changes no entry that has a slot, and
  changes nothing at all when \<open>idx\<close> has a slot already.
\<close>

theorem collapse_map_assigned_once:
  assumes "length (TriangleSoup.vert aSoup) \<le> unassigned"
    and "m \<le> n" and "n \<le> length (TriangleSoup.vert aSoup)"
    and "collapse_upto gHash aVM aD aSoup eps m = Some stm"
    and "collapse_upto gHash aVM aD aSoup eps n = Some stn"
  shows "keeps_assigned (collapseMap stm) (collapseMap stn) \<and>
     (\<forall>k<n. collapseMap stn ! k \<noteq> unassigned) \<and>
     (\<forall>st'. process_vertex gHash aVM aD aSoup eps n stn = Some st' \<longrightarrow>
        keeps_assigned (collapseMap stn) (collapseMap st') \<and> collapseMap st' ! n \<noteq> unassigned) \<and>
     (\<forall>self pre idx st1 st2.
        collapseMap stn ! n = unassigned \<longrightarrow>
        foldM (merge_candidate aSoup eps n self) pre
          (stn \<lparr> merged := False, target := unassigned \<rparr>) = Some st1 \<longrightarrow>
        merge_candidate aSoup eps n self idx st1 = Some st2 \<longrightarrow>
          keeps_assigned (collapseMap stn) (collapseMap st1) \<and>
          keeps_assigned (collapseMap st1) (collapseMap st2) \<and>
          (collapseMap st1 ! idx \<noteq> unassigned \<longrightarrow> st2 = st1))"
proof (intro conjI allI impI)
  show "keeps_assigned (collapseMap stm) (collapseMap stn)"
    using collapse_upto_keeps [OF assms(2,4,5)] .
next
  fix k assume "k < n"
  then show "collapseMap stn ! k \<noteq> unassigned"
    using collapse_upto_slots [OF assms(5)] assms(1,3) by simp
next
  fix st' assume "process_vertex gHash aVM aD aSoup eps n stn = Some st'"
  then show "keeps_assigned (collapseMap stn) (collapseMap st')"
    by (rule process_vertex_keeps)
next
  fix st' assume pv: "process_vertex gHash aVM aD aSoup eps n stn = Some st'"
  have "n < length (collapseMap stn)"
    using pv by (auto simp: process_vertex_def elem_def split: if_splits bind_splits)
  moreover have "length (collapseMap stn) = length (TriangleSoup.vert aSoup)"
    using collapse_upto_inv [OF assms(5,3)] by (simp add: collapse_inv_def)
  ultimately have "n < unassigned" using assms(1) by simp
  moreover have "nextVertex stn \<le> n" using collapse_upto_slots [OF assms(5)] assms(1,3) by simp
  ultimately show "collapseMap st' ! n \<noteq> unassigned"
    using process_vertex_slot [OF pv] by simp
next
  fix self pre idx st1 st2
  assume un: "collapseMap stn ! n = unassigned"
    and scan: "foldM (merge_candidate aSoup eps n self) pre
          (stn \<lparr> merged := False, target := unassigned \<rparr>) = Some st1"
    and step: "merge_candidate aSoup eps n self idx st1 = Some st2"
  have k1: "keeps_assigned (collapseMap stn) (collapseMap st1)"
    "\<not> merged st1 \<longrightarrow> collapseMap st1 ! n = unassigned"
    using scan_keeps [OF scan] un by simp_all
  show "keeps_assigned (collapseMap stn) (collapseMap st1)" by (rule k1(1))
  show "keeps_assigned (collapseMap st1) (collapseMap st2)"
    using merge_candidate_keeps [OF step k1(2)] by simp
  assume "collapseMap st1 ! idx \<noteq> unassigned"
  then show "st2 = st1"
    using step by (auto simp: merge_candidate_def elem_def split: if_splits bind_splits)
qed

lemma candidates_empty: "candidates gHash [] dp = []"
  by (simp add: candidates_def equal_range_def)

lemma soup3_run1:
  "collapse_upto gHash [] dis3 soup3 eps (Suc 0) =
     Some \<lparr> aIndices = [0], aVertices = [0], collapseMap = [0, unassigned, unassigned],
            nextVertex = 1, merged = False, target = unassigned \<rparr>"
  by (simp add: collapse_upto_Suc collapse_upto_def collapse_init_def soup3_def process_vertex_def
      elem_def discretize_dis3 candidates_empty Let_def)

lemma soup3_run2:
  "collapse_upto gHash [] dis3 soup3 eps (Suc (Suc 0)) =
     Some \<lparr> aIndices = [0, 1], aVertices = [0, 1], collapseMap = [0, 1, unassigned],
            nextVertex = 2, merged = False, target = unassigned \<rparr>"
  unfolding collapse_upto_Suc [of _ _ _ _ _ "Suc 0"] soup3_run1
  by (simp add: soup3_def process_vertex_def unassigned_def
      elem_def discretize_dis3 candidates_empty Let_def)

theorem collapse_map_assigned_once_witness:
  "length (TriangleSoup.vert soup3) \<le> unassigned \<and>
   collapse_upto (\<lambda>w. w) [] dis3 soup3 (1 / 8) (Suc 0) =
     Some \<lparr> aIndices = [0], aVertices = [0], collapseMap = [0, unassigned, unassigned],
            nextVertex = 1, merged = False, target = unassigned \<rparr> \<and>
   collapse_upto (\<lambda>w. w) [] dis3 soup3 (1 / 8) (Suc (Suc 0)) =
     Some \<lparr> aIndices = [0, 1], aVertices = [0, 1], collapseMap = [0, 1, unassigned],
            nextVertex = 2, merged = False, target = unassigned \<rparr> \<and>
   keeps_assigned [0, unassigned, unassigned] [0, 1, unassigned] \<and>
   merge_candidate soup3 (1 / 8) 2 (0, 0, 0) 0
     \<lparr> aIndices = [0, 1], aVertices = [0, 1], collapseMap = [0, 1, unassigned],
       nextVertex = 2, merged = False, target = unassigned \<rparr> =
     Some \<lparr> aIndices = [0, 1], aVertices = [0, 1], collapseMap = [0, 1, unassigned],
            nextVertex = 2, merged = False, target = unassigned \<rparr>"
proof -
  have h1: "length (TriangleSoup.vert soup3) \<le> unassigned"
    by (simp add: soup3_def unassigned_def)
  have h3: "Suc (Suc 0) \<le> length (TriangleSoup.vert soup3)" by (simp add: soup3_def)
  have sk: "merge_candidate soup3 (1 / 8) 2 (0, 0, 0) 0
     \<lparr> aIndices = [0, 1], aVertices = [0, 1], collapseMap = [0, 1, unassigned],
       nextVertex = 2, merged = False, target = unassigned \<rparr> =
     Some \<lparr> aIndices = [0, 1], aVertices = [0, 1], collapseMap = [0, 1, unassigned],
            nextVertex = 2, merged = False, target = unassigned \<rparr>"
    by (simp add: merge_candidate_def elem_def unassigned_def)
  from collapse_map_assigned_once [OF h1 _ h3 soup3_run1 soup3_run2, of "\<lambda>w. w" "1 / 8"]
  have "keeps_assigned [0, unassigned, unassigned] [0, 1, unassigned]" by simp
  then show ?thesis using h1 soup3_run1 soup3_run2 sk by simp
qed

section \<open>Attributes of the unique vertices\<close>

lemma shuffle_vertex_step:
  assumes "shuffle_vertex aSoup vm i ret = Some ret'"
  shows "i < length vm \<and> vm ! i < length (TriangleSoup.vert aSoup) \<and>
     IndexedMesh.vert ret' = (IndexedMesh.vert ret) [i := TriangleSoup.vert aSoup ! (vm ! i)] \<and>
     IndexedMesh.text_v ret' = (IndexedMesh.text_v ret) [i := TriangleSoup.text_v aSoup ! (vm ! i)] \<and>
     IndexedMesh.norm_v ret' =
       (if TriangleSoup.norm_v aSoup \<noteq> []
        then (IndexedMesh.norm_v ret) [i := TriangleSoup.norm_v aSoup ! (vm ! i)]
        else IndexedMesh.norm_v ret) \<and>
     tangent ret' = tangent ret \<and> IndexedMesh.indices ret' = IndexedMesh.indices ret \<and>
     aabbMin ret' = aabbMin ret \<and> aabbMax ret' = aabbMax ret"
  using assms
  by (auto simp: shuffle_vertex_def elem_def Let_def split: if_splits bind_splits)

lemma shuffle_upto:
  assumes "foldM (shuffle_vertex aSoup vm) [0..<n] ret0 = Some ret"
    and "n \<le> verts" and "shuffled aSoup vm verts 0 ret0"
  shows "shuffled aSoup vm verts n ret"
  using assms(1,2)
proof (induction n arbitrary: ret)
  case 0
  then show ?case using assms(3) by simp
next
  case (Suc n)
  from Suc.prems(1) obtain t where
    t: "foldM (shuffle_vertex aSoup vm) [0..<n] ret0 = Some t"
       "shuffle_vertex aSoup vm n t = Some ret"
    by (auto simp: foldM_append split: option.splits)
  have ih: "shuffled aSoup vm verts n t" using Suc.IH [OF t(1)] Suc.prems(2) by simp
  show ?case
    using shuffle_vertex_step [OF t(2)] ih Suc.prems(2)
    by (auto simp: shuffled_def less_Suc_eq nth_list_update)
qed

lemma shuffle_vertex_data_attrs:
  assumes "shuffle_vertex_data aSoup vm verts = Some ret"
  shows "shuffled aSoup vm verts verts ret"
  using assms unfolding shuffle_vertex_data_def
  by (rule shuffle_upto) (simp_all add: shuffled_def IndexedMesh_ctor_def)


lemma vec3_at_vmin: "k < 3 \<Longrightarrow> vec3_at (vmin a b) k = min (vec3_at a k) (vec3_at b k)"
  by (cases a; cases b) (auto simp: vmin_def)

lemma vec3_at_vmax: "k < 3 \<Longrightarrow> vec3_at (vmax a b) k = max (vec3_at a k) (vec3_at b k)"
  by (cases a; cases b) (auto simp: vmax_def)

lemma bounding_fold:
  assumes "fold (\<lambda>v (bmin, bmax). (vmin bmin v, vmax bmax v)) vs (a, b) = (lo, hi)"
    and "k < 3"
  shows "vec3_at lo k \<le> vec3_at a k \<and> vec3_at b k \<le> vec3_at hi k \<and>
     (\<forall>v\<in>set vs. vec3_at lo k \<le> vec3_at v k \<and> vec3_at v k \<le> vec3_at hi k)"
  using assms(1)
proof (induction vs arbitrary: a b)
  case Nil
  then show ?case by simp
next
  case (Cons v vs)
  have "fold (\<lambda>v (bmin, bmax). (vmin bmin v, vmax bmax v)) vs (vmin a v, vmax b v) = (lo, hi)"
    using Cons.prems by simp
  from Cons.IH [OF this] show ?case
    using assms(2) by (auto simp: vec3_at_vmin vec3_at_vmax)
qed

lemma bounding_volume_bounds:
  assumes "bounding_volume vs = (bmin, bmax)" and "v \<in> set vs" and "k < 3"
  shows "vec3_at bmin k \<le> vec3_at v k \<and> vec3_at v k \<le> vec3_at bmax k"
  using bounding_fold [OF assms(1) [unfolded bounding_volume_def] assms(3)] assms(2) by blast

lemma build_vicinity_map_upto:
  assumes "list_all (\<lambda>v. discretize aD v \<noteq> None) ps" and "n \<le> length ps"
  shows "foldM (\<lambda>index m. do {
              dp \<leftarrow> discretize aD (ps ! index);
              Some (m @ [(hash_discretized_position' gHash dp, index)]) }) [0..<n] aMap =
     Some (aMap @ map (\<lambda>k. (hash_discretized_position' gHash (the (discretize aD (ps ! k))), k)) [0..<n])"
  using assms(2)
proof (induction n)
  case 0
  then show ?case by simp
next
  case (Suc n)
  then have "discretize aD (ps ! n) \<noteq> None" using assms(1) by (simp add: list_all_length)
  then obtain dp where "discretize aD (ps ! n) = Some dp" by blast
  then show ?case using Suc by (simp add: foldM_append)
qed

lemma build_vicinity_map_eq:
  assumes "list_all (\<lambda>v. discretize aD v \<noteq> None) ps"
  shows "build_vicinity_map' gHash aMap aD ps =
     Some (aMap @ map (\<lambda>k. (hash_discretized_position' gHash (the (discretize aD (ps ! k))), k))
                    [0..<length ps])"
  unfolding build_vicinity_map'_def
  using build_vicinity_map_upto [OF assms order_refl] .

lemma group4_defined: "length xs mod 4 = 0 \<Longrightarrow> group4 xs \<noteq> None"
proof (induction xs rule: group4.induct)
  case (1 a b c d r)
  then show ?case by (auto simp: mod_Suc split: if_splits)
qed auto

lemma shuffle_vertex_defined:
  assumes "wf_soup aSoup" and "i < length vm" and "vm ! i < length (TriangleSoup.vert aSoup)"
  shows "shuffle_vertex aSoup vm i ret \<noteq> None"
  using assms by (auto simp: shuffle_vertex_def elem_def wf_soup_def Let_def)

lemma shuffle_vertex_data_defined:
  assumes "wf_soup aSoup" and "\<forall>v\<in>set vm. v < length (TriangleSoup.vert aSoup)"
  shows "\<exists>ret. shuffle_vertex_data aSoup vm (length vm) = Some ret"
proof -
  have "\<exists>s'. foldM (shuffle_vertex aSoup vm) [0..<length vm]
      (IndexedMesh_ctor
          \<lparr> IndexedMesh.vert := replicate (length vm) (0, 0, 0),
            IndexedMesh.text_v := replicate (length vm) (0, 0),
            IndexedMesh.norm_v :=
              (if TriangleSoup.norm_v aSoup \<noteq> [] then replicate (length vm) (0, 0, 0) else []) \<rparr>) = Some s' \<and> True"
  proof (rule foldM_total [where P = "\<lambda>_. True"])
    fix a t assume "a \<in> set [0..<length vm]"
    then have "a < length vm" by simp
    then show "\<exists>t'. shuffle_vertex aSoup vm a t = Some t' \<and> True"
      using shuffle_vertex_defined [OF assms(1), of a vm t] assms(2) by auto
  qed simp
  then show ?thesis by (simp add: shuffle_vertex_data_def)
qed

lemma is_float_abs: "is_float r \<Longrightarrow> \<bar>r\<bar> \<le> float_max"
  by (simp add: is_float_iff)

lemma fround_nonneg: "0 \<le> r \<Longrightarrow> nonneg_fval (fround r)"
  using float_rnd_nonneg [of r] float_max_pos by (simp add: fround_def nonneg_fval_def)

lemma std_max_cases: "std_max a b = a \<or> std_max a b = b"
  by (simp add: std_max_def)

lemma std_max_nonneg: "nonneg_fval a \<Longrightarrow> nonneg_fval b \<Longrightarrow> nonneg_fval (std_max a b)"
  by (simp add: std_max_def)

lemma std_max_Fin:
  assumes "nonneg_fval a" and "nonneg_fval b" and "std_max a b = Fin L"
  shows "\<exists>p q. a = Fin p \<and> b = Fin q \<and> p \<le> L \<and> q \<le> L \<and> (L = p \<or> L = q)"
  using assms by (cases a; cases b) (auto simp: std_max_def nonneg_fval_def split: if_splits)

text \<open>One axis of the enlarged volume, from \<open>lo - m\<close> to \<open>hi + m\<close>.\<close>

lemma side_axis:
  assumes "lo \<le> hi" and "is_float lo" and "is_float hi" and "nonneg_fval m"
  shows "nonneg_fval (fsub (fadd (Fin hi) m) (fsub (Fin lo) m))"
    and "fsub (fadd (Fin hi) m) (fsub (Fin lo) m) = Fin p \<Longrightarrow>
      p \<le> float_max \<and>
      (\<exists>a. fsub (Fin lo) m = Fin a \<and>
         (\<forall>v. lo \<le> v \<longrightarrow> v \<le> hi \<longrightarrow> 0 \<le> float_rnd (v - a) \<and> float_rnd (v - a) \<le> p))"
proof -
  let ?s = "fsub (fadd (Fin hi) m) (fsub (Fin lo) m)"
  have "nonneg_fval ?s \<and> (?s = Fin p \<longrightarrow> p \<le> float_max \<and>
      (\<exists>a. fsub (Fin lo) m = Fin a \<and>
         (\<forall>v. lo \<le> v \<longrightarrow> v \<le> hi \<longrightarrow> 0 \<le> float_rnd (v - a) \<and> float_rnd (v - a) \<le> p)))"
  proof (cases m)
    case (Fin mu)
    then have mu: "0 \<le> mu" using assms(4) by (simp add: nonneg_fval_def)
    define A where "A = float_rnd (lo - mu)"
    define B where "B = float_rnd (hi + mu)"
    have A: "A \<le> lo" unfolding A_def using mu assms(2) by (intro float_rnd_le) simp_all
    have B: "hi \<le> B" unfolding B_def using mu assms(3) by (intro float_rnd_ge) simp_all
    have lo: "lo \<le> float_max" and hi: "- float_max \<le> hi"
      using is_float_abs [OF assms(2)] is_float_abs [OF assms(3)] by simp_all
    have up: "fadd (Fin hi) m = (if float_max < B then PInf else Fin B)"
      using B hi by (simp add: Fin fround_def B_def)
    have dn: "fsub (Fin lo) m = (if A < - float_max then NInf else Fin A)"
      using A lo float_max_pos by (simp add: Fin fsub_Fin fround_def A_def)
    show ?thesis
    proof (cases "float_max < B \<or> A < - float_max")
      case True
      then have "?s = PInf" unfolding up dn by (auto simp: fsub_def)
      then show ?thesis by (simp add: nonneg_fval_def)
    next
      case False
      then have s: "?s = fround (B - A)" and a: "fsub (Fin lo) m = Fin A"
        by (simp_all add: up dn fsub_Fin)
      have "0 \<le> B - A" using A B assms(1) by linarith
      then have n: "nonneg_fval ?s" unfolding s by (rule fround_nonneg)
      have "p \<le> float_max \<and> (\<forall>v. lo \<le> v \<longrightarrow> v \<le> hi \<longrightarrow>
          0 \<le> float_rnd (v - A) \<and> float_rnd (v - A) \<le> p)" if "?s = Fin p"
      proof -
        from that have p: "p = float_rnd (B - A)" "\<bar>float_rnd (B - A)\<bar> \<le> float_max"
          by (simp_all add: s fround_Fin_iff)
        have "0 \<le> float_rnd (v - A) \<and> float_rnd (v - A) \<le> p" if "lo \<le> v" "v \<le> hi" for v
        proof
          show "0 \<le> float_rnd (v - A)" using that A by (intro float_rnd_nonneg) linarith
          show "float_rnd (v - A) \<le> p" unfolding p using that B by (intro float_rnd_mono) linarith
        qed
        then show ?thesis using p by auto
      qed
      then show ?thesis using n a by auto
    qed
  next
    case PInf
    then show ?thesis by (simp add: fsub_def nonneg_fval_def)
  next
    case NInf
    then show ?thesis using assms(4) by (simp add: nonneg_fval_def)
  next
    case NaN
    then show ?thesis using assms(4) by (simp add: nonneg_fval_def)
  qed
  then show "nonneg_fval ?s"
    and "?s = Fin p \<Longrightarrow> p \<le> float_max \<and>
      (\<exists>a. fsub (Fin lo) m = Fin a \<and>
         (\<forall>v. lo \<le> v \<longrightarrow> v \<le> hi \<longrightarrow> 0 \<le> float_rnd (v - a) \<and> float_rnd (v - a) \<le> p))"
    by blast+
qed


lemma bounding_fold_float:
  assumes "fold (\<lambda>v (bmin, bmax). (vmin bmin v, vmax bmax v)) vs (a, b) = (lo, hi)"
    and "k < 3" and "is_float (vec3_at a k)" and "is_float (vec3_at b k)"
    and "\<forall>v\<in>set vs. is_float (vec3_at v k)"
  shows "is_float (vec3_at lo k) \<and> is_float (vec3_at hi k)"
  using assms(1,3,4,5)
proof (induction vs arbitrary: a b)
  case Nil
  then show ?case by simp
next
  case (Cons v vs)
  have f: "fold (\<lambda>v (bmin, bmax). (vmin bmin v, vmax bmax v)) vs (vmin a v, vmax b v) = (lo, hi)"
    using Cons.prems(1) by simp
  have "is_float (vec3_at (vmin a v) k)" "is_float (vec3_at (vmax b v) k)"
    using Cons.prems(2-4) assms(2) by (simp_all add: vec3_at_vmin vec3_at_vmax min_def max_def)
  from Cons.IH [OF f this] Cons.prems(4) show ?case by simp
qed

lemma float_positions_coord:
  "float_positions vs \<Longrightarrow> v \<in> set vs \<Longrightarrow> k < 3 \<Longrightarrow> is_float (vec3_at v k)"
  by (cases v) (auto simp: float_positions_def list_all_iff)

lemma bounding_volume_float:
  assumes "bounding_volume vs = (bmin, bmax)" and "float_positions vs" and "k < 3"
  shows "is_float (vec3_at bmin k) \<and> is_float (vec3_at bmax k)"
proof -
  have "\<forall>v\<in>set vs. is_float (vec3_at v k)"
    using float_positions_coord [OF assms(2) _ assms(3)] by blast
  then show ?thesis
    using bounding_fold_float [OF assms(1) [unfolded bounding_volume_def] assms(3)]
      is_float_float_max is_float_float_min by simp
qed

text \<open>When the longest side of the enlarged volume is a number, every position lies
  inside the volume, off its lower faces by at most that side.\<close>

lemma grid_volume_bounds:
  assumes gv: "grid_volume vs eps = (fmin, Fin L)" and ne: "vs \<noteq> []" and eps: "0 \<le> eps"
    and fl: "float_positions vs"
  shows "0 \<le> L \<and> L \<le> float_max"
    and "k < 3 \<Longrightarrow> \<exists>a. vec3_at fmin k = Fin a \<and>
      (\<forall>v\<in>set vs. 0 \<le> float_rnd (vec3_at v k - a) \<and> float_rnd (vec3_at v k - a) \<le> L)"
proof -
  obtain bmin bmax where bv: "bounding_volume vs = (bmin, bmax)" by (cases "bounding_volume vs")
  obtain w where w: "w \<in> set vs" using ne by (cases vs) auto
  define m where "m = fmul (Fin kAABBMarginFactor) (Fin eps)"
  define s where "s = (\<lambda>k. fsub (fadd (Fin (vec3_at bmax k)) m) (fsub (Fin (vec3_at bmin k)) m))"
  have m: "nonneg_fval m"
    unfolding m_def using eps by (simp add: kAABBMarginFactor_def fround_nonneg)
  have bb: "vec3_at bmin j \<le> vec3_at v j \<and> vec3_at v j \<le> vec3_at bmax j"
    if "v \<in> set vs" "j < 3" for v j
    using bounding_volume_bounds [OF bv that] .
  have ord: "vec3_at bmin j \<le> vec3_at bmax j" if "j < 3" for j
    using bb [OF w that] by linarith
  have flo: "is_float (vec3_at bmin j)" "is_float (vec3_at bmax j)" if "j < 3" for j
    using bounding_volume_float [OF bv fl that] by simp_all
  have nn: "nonneg_fval (s j)" if "j < 3" for j
    unfolding s_def using side_axis(1) [OF ord [OF that] flo [OF that] m] .
  have f: "fmin = (fsub (Fin (vec3_at bmin 0)) m, fsub (Fin (vec3_at bmin 1)) m,
                   fsub (Fin (vec3_at bmin 2)) m)"
    and mx: "Fin L = std_max (s 0) (std_max (s 1) (s 2))"
    using gv bv by (simp_all add: grid_volume_def Let_def m_def s_def)
  from std_max_Fin [OF nn [of 0] std_max_nonneg [OF nn [of 1] nn [of 2]] mx [symmetric]]
  obtain p0 q where p0: "s 0 = Fin p0" "p0 \<le> L" and q: "std_max (s 1) (s 2) = Fin q" "q \<le> L"
    and L0: "L = p0 \<or> L = q" by auto
  from std_max_Fin [OF nn [of 1] nn [of 2] q(1)]
  obtain p1 p2 where p1: "s 1 = Fin p1" "p1 \<le> q" and p2: "s 2 = Fin p2" "p2 \<le> q"
    and q0: "q = p1 \<or> q = p2" by auto
  have sp: "\<exists>p. s j = Fin p \<and> p \<le> L" if "j < 3" for j
  proof -
    have "j = 0 \<or> j = 1 \<or> j = 2" using that by auto
    then show ?thesis using p0 p1 p2 q(2) by auto
  qed
  have ax: "p \<le> float_max \<and> (\<exists>a. fsub (Fin (vec3_at bmin j)) m = Fin a \<and>
         (\<forall>v. vec3_at bmin j \<le> v \<longrightarrow> v \<le> vec3_at bmax j \<longrightarrow>
            0 \<le> float_rnd (v - a) \<and> float_rnd (v - a) \<le> p))"
    if "j < 3" "s j = Fin p" for j p
    using side_axis(2) [OF ord [OF that(1)] flo [OF that(1)] m, of p] that(2) by (simp add: s_def)
  have "0 \<le> p0" using nn [of 0] p0(1) by (simp add: nonneg_fval_def)
  then have "0 \<le> L" using p0(2) by linarith
  moreover have "L \<le> float_max"
    using L0 q0 ax [of 0 p0] ax [of 1 p1] ax [of 2 p2] p0(1) p1(1) p2(1) by auto
  ultimately show "0 \<le> L \<and> L \<le> float_max" ..
  show "\<exists>a. vec3_at fmin k = Fin a \<and>
      (\<forall>v\<in>set vs. 0 \<le> float_rnd (vec3_at v k - a) \<and> float_rnd (vec3_at v k - a) \<le> L)"
    if k: "k < 3"
  proof -
    obtain p where p: "s k = Fin p" "p \<le> L" using sp [OF k] by blast
    from ax [OF k p(1)] obtain a where a: "fsub (Fin (vec3_at bmin k)) m = Fin a"
      and r: "\<And>v. vec3_at bmin k \<le> v \<Longrightarrow> v \<le> vec3_at bmax k \<Longrightarrow>
            0 \<le> float_rnd (v - a) \<and> float_rnd (v - a) \<le> p" by blast
    have "vec3_at fmin k = Fin a"
    proof -
      have "k = 0 \<or> k = 1 \<or> k = 2" using k by auto
      then show ?thesis using a by (auto simp: f)
    qed
    moreover have "0 \<le> float_rnd (vec3_at v k - a) \<and> float_rnd (vec3_at v k - a) \<le> L"
      if "v \<in> set vs" for v
      using r [of "vec3_at v k"] bb [OF that k] p(2) by auto
    ultimately show ?thesis by blast
  qed
qed


lemma fadd_Fin_left: "fadd a (Fin b) = Fin r \<Longrightarrow> \<exists>a'. a = Fin a'"
  by (cases a) simp_all

lemma fdiv_Fin_left: "fdiv a b = Some (Fin r) \<Longrightarrow> \<exists>a'. a = Fin a'"
  by (cases a; cases b) (simp_all split: if_splits)

text \<open>Where the number of subdivisions is defined, the longest side is a number.\<close>

lemma grid_subdiv_finite:
  assumes "grid_subdiv maxSide eps = Some n"
  shows "\<exists>L. maxSide = Fin L" and "n \<le> kSparseGridMaxSize"
proof -
  from assms obtain numCells c where d: "fdiv maxSide (fmul (Fin 2) (Fin eps)) = Some numCells"
    and c: "to_size_t (fadd numCells (Fin (1 / 2))) = Some c" and n: "n = min kSparseGridMaxSize c"
    by (auto simp: grid_subdiv_def split: bind_splits)
  from c obtain r where "fadd numCells (Fin (1 / 2)) = Fin r"
    by (cases "fadd numCells (Fin (1 / 2))") (simp_all add: to_size_t_def)
  then obtain q where "numCells = Fin q" using fadd_Fin_left by blast
  then show "\<exists>L. maxSide = Fin L" using d fdiv_Fin_left by blast
  show "n \<le> kSparseGridMaxSize" by (simp add: n)
qed

lemma to_uint32_defined: "0 \<le> v \<Longrightarrow> v \<le> 2097152 \<Longrightarrow> to_uint32 (Fin v) \<noteq> None"
  by (simp add: to_uint32_def)

lemma of_uint32_small:
  assumes "n \<le> kSparseGridMaxSize"
  shows "of_uint32 (of_nat n) = Fin (real n)"
proof -
  have le: "n \<le> 1048576" using assms by (simp add: kSparseGridMaxSize_def)
  then have un: "unat (of_nat n :: 32 word) = n"
    by (simp add: unat_of_nat take_bit_nat_eq_self)
  have "\<bar>int n\<bar> < 2 ^ 24" using le by simp
  from is_float_of_int [OF this] show ?thesis by (simp add: of_uint32_def un is_float_def)
qed

text \<open>
  Where the discretizer of a soup is defined and its scale is a number, it is defined on
  every position of the soup: every cell coordinate is between 0 and twice the number of
  subdivisions.
\<close>

lemma make_discretizer_defined:
  assumes eps: "0 < eps" and fl: "float_positions (TriangleSoup.vert aSoup)"
    and md: "make_discretizer aSoup eps = Some dis" and sc: "scale dis = Some (Fin sc)"
  shows "list_all (\<lambda>v. discretize dis v \<noteq> None) (TriangleSoup.vert aSoup)"
proof (cases "TriangleSoup.vert aSoup = []")
  case True
  then show ?thesis by simp
next
  case ne: False
  obtain fmin maxSide where gv: "grid_volume (TriangleSoup.vert aSoup) eps = (fmin, maxSide)"
    by (cases "grid_volume (TriangleSoup.vert aSoup) eps")
  from md gv obtain n where sd: "grid_subdiv maxSide eps = Some n"
    and dis: "dis = Discretizer'_ctor (of_nat n) fmin maxSide"
    by (auto simp: make_discretizer_def split: bind_splits)
  from grid_subdiv_finite [OF sd] obtain L where L: "maxSide = Fin L"
    and n: "n \<le> kSparseGridMaxSize" by blast
  have n': "real n \<le> 1048576" using n by (simp add: kSparseGridMaxSize_def)
  have gv': "grid_volume (TriangleSoup.vert aSoup) eps = (fmin, Fin L)" using gv L by simp
  have eps': "0 \<le> eps" using eps by simp
  have Lb: "0 \<le> L" "L \<le> float_max" using grid_volume_bounds(1) [OF gv' ne eps' fl] by simp_all
  have mv: "min_v dis = fmin" by (simp add: dis Discretizer'_ctor_def)
  have "fdiv (Fin (real n)) (Fin L) = Some (Fin sc)"
    using sc by (simp add: dis Discretizer'_ctor_def L of_uint32_small [OF n])
  then have L0: "L \<noteq> 0" and fr: "fround (real n / L) = Fin sc" by (simp_all split: if_splits)
  have Lp: "0 < L" using Lb(1) L0 by simp
  have sc_eq: "sc = float_rnd (real n / L)" using fr by (simp add: fround_Fin_iff)
  have q0: "0 \<le> real n / L" using Lp by simp
  have sc0: "0 \<le> sc" unfolding sc_eq using q0 by (rule float_rnd_nonneg)
  have sc2: "sc \<le> 2 * (real n / L)" unfolding sc_eq using q0 by (rule float_rnd_le_twice)
  have big: "is_float 2097152" using is_float_of_int [of 2097152] by simp
  have "discretize dis v \<noteq> None" if v: "v \<in> set (TriangleSoup.vert aSoup)" for v
  proof -
    have c: "to_uint32 (fmul (fsub (Fin (vec3_at v k)) (vec3_at fmin k)) (Fin sc)) \<noteq> None"
      if k: "k < 3" for k
    proof -
      from grid_volume_bounds(2) [OF gv' ne eps' fl k] v obtain a where a: "vec3_at fmin k = Fin a"
        and t: "0 \<le> float_rnd (vec3_at v k - a)" "float_rnd (vec3_at v k - a) \<le> L" by blast
      define t where "t = float_rnd (vec3_at v k - a)"
      have tb: "0 \<le> t" "t \<le> L" using t by (simp_all add: t_def)
      have "\<bar>t\<bar> \<le> float_max" using tb Lb(2) by simp
      then have sub: "fsub (Fin (vec3_at v k)) (vec3_at fmin k) = Fin t"
        by (simp add: a fsub_Fin fround_Fin_iff t_def)
      have "t * sc \<le> L * sc" using tb(2) sc0 by (rule mult_right_mono)
      also have "\<dots> \<le> L * (2 * (real n / L))" using sc2 Lb(1) by (rule mult_left_mono)
      also have "\<dots> = 2 * real n" using Lp by simp
      finally have ub: "t * sc \<le> 2097152" using n' by linarith
      have lb: "0 \<le> t * sc" using tb(1) sc0 by simp
      have r1: "float_rnd (t * sc) \<le> 2097152" using ub big by (rule float_rnd_le)
      have r0: "0 \<le> float_rnd (t * sc)" using lb by (rule float_rnd_nonneg)
      have "2097152 \<le> float_max" by (simp add: float_max_def)
      then have "\<bar>float_rnd (t * sc)\<bar> \<le> float_max" using r0 r1 by simp
      then have "fmul (Fin t) (Fin sc) = Fin (float_rnd (t * sc))" by (simp add: fround_Fin_iff)
      then show ?thesis using to_uint32_defined [OF r0 r1] by (simp add: sub)
    qed
    from c [of 0] c [of 1] c [of 2] show ?thesis
      by (auto simp: discretize_def sc mv)
  qed
  then show ?thesis by (auto simp: list_all_iff)
qed

lemma make_indexed_mesh_defined:
  assumes "wf_soup aSoup" and "0 < eps" and "float_positions (TriangleSoup.vert aSoup)"
    and d: "make_discretizer aSoup eps = Some dis" and "scale dis = Some (Fin sc)"
    and "\<And>a b c d n. length (tgen a b c d n) mod 4 = 0"
  shows "\<exists>mesh. make_indexed_mesh tgen gHash aSoup eps = Some mesh"
proof -
  let ?N = "length (TriangleSoup.vert aSoup)"
  have dd: "list_all (\<lambda>v. discretize dis v \<noteq> None) (TriangleSoup.vert aSoup)"
    using make_discretizer_defined [OF assms(2-5)] .
  define vm where "vm = map (\<lambda>k. (hash_discretized_position' gHash
      (the (discretize dis (TriangleSoup.vert aSoup ! k))), k)) [0..<?N]"
  have b: "build_vicinity_map' gHash [] dis (TriangleSoup.vert aSoup) = Some vm"
    using build_vicinity_map_eq [OF dd, of gHash "[]"] by (simp add: vm_def)
  have r: "vm_in_range vm ?N" by (auto simp: vm_in_range_def vm_def)
  obtain st where st: "collapse_upto gHash vm dis aSoup eps ?N = Some st"
    using collapse_upto_total [OF assms(1) r dd order_refl] by blast
  have inv: "collapse_inv ?N st" "length (aIndices st) = ?N"
    using collapse_upto_inv [OF st] by simp_all
  have c: "collapse_vertices' gHash vm dis aSoup eps = Some (aIndices st, aVertices st, nextVertex st)"
    using st by (simp add: collapse_vertices'_def)
  have nv: "nextVertex st = length (aVertices st)" using inv(1) by (simp add: collapse_inv_def)
  have "\<forall>v\<in>set (aVertices st). v < ?N" using inv(1) by (simp add: collapse_inv_def)
  then obtain ret where s: "shuffle_vertex_data aSoup (aVertices st) (length (aVertices st)) = Some ret"
    using shuffle_vertex_data_defined [OF assms(1)] by blast
  obtain tg where g: "group4 (tgen (aIndices st)
      (concat (map (\<lambda>(a, b, c). [a, b, c]) (IndexedMesh.vert (ret \<lparr> IndexedMesh.indices := aIndices st \<rparr>))))
      (concat (map (\<lambda>(a, b). [a, b]) (IndexedMesh.text_v (ret \<lparr> IndexedMesh.indices := aIndices st \<rparr>))))
      (concat (map (\<lambda>(a, b, c). [a, b, c]) (IndexedMesh.norm_v (ret \<lparr> IndexedMesh.indices := aIndices st \<rparr>))))
      (length (IndexedMesh.text_v (ret \<lparr> IndexedMesh.indices := aIndices st \<rparr>)))) = Some tg"
    using group4_defined [OF assms(6)] by blast
  show ?thesis
    using d b c nv inv(2) s g by (simp add: make_indexed_mesh_def Let_def)
qed


lemma fround_quarters: "numeral k < (2 ^ 24 :: int) \<Longrightarrow> fround (numeral k / 4) = Fin (numeral k / 4)"
  using is_float_dyadic [of "numeral k" "- 2"] by (simp add: is_float_def power_int_minus_divide)

lemma fround_halves: "numeral k < (2 ^ 24 :: int) \<Longrightarrow> fround (numeral k / 2) = Fin (numeral k / 2)"
  using is_float_dyadic [of "numeral k" "- 1"] by (simp add: is_float_def power_int_minus_divide)

lemma fround_quarter: "fround (1 / 4) = Fin (1 / 4)"
  using is_float_dyadic [of 1 "- 2"] by (simp add: is_float_def power_int_minus_divide)

lemma is_float_1: "is_float 1"
  by (simp add: is_float_def fround_one)

text \<open>The smallest positive normal float is lost in a sum with 5/4 or with 10.\<close>

lemma fround_float_min_plus:
  "fround (float_min + 5 / 4) = Fin (5 / 4)"
  "fround (float_min + 10) = Fin 10"
proof -
  have "float_rnd (float_min + 5 / 4) = 5 / 4"
    using float_rnd_eval [of 0 "float_min + 5 / 4" "5 * 2 ^ 21"] by (simp add: float_min_def)
  then show "fround (float_min + 5 / 4) = Fin (5 / 4)"
    by (simp add: fround_Fin_iff float_max_def)
  have "float_rnd (float_min + 10) = 10"
    using float_rnd_eval [of 3 "float_min + 10" "10 * 2 ^ 20"] by (simp add: float_min_def)
  then show "fround (float_min + 10) = Fin 10"
    by (simp add: fround_Fin_iff float_max_def)
qed

lemma soup3_bounds:
  "bounding_volume (TriangleSoup.vert soup3) = ((0, 0, 0), (1, float_min, float_min))"
  by (simp add: soup3_def bounding_volume_def vmin_def vmax_def float_max_def float_min_def)

lemma soup3_discretizer:
  "make_discretizer soup3 (1 / 8) =
     Some \<lparr> min_v = (Fin (- (5 / 4)), Fin (- (5 / 4)), Fin (- (5 / 4))), scale = Some (Fin 4) \<rparr>"
  by (simp add: make_discretizer_def grid_volume_def soup3_bounds Let_def kAABBMarginFactor_def
      fsub_Fin fround_minus fround_quarters fround_halves fround_quarter fround_numeral
      fround_float_min_plus std_max_def grid_subdiv_def to_size_t_def kSparseGridMaxSize_def
      Discretizer'_ctor_def of_uint32_def)

text \<open>
  Claim C5.  Whenever \<open>make_indexed_mesh\<close> returns a mesh, its index buffer is the one
  of \<open>collapse_vertices'\<close>, run with the discretizer and the vicinity map of the soup, and
  for the vertex mapping of that run every slot \<open>i\<close> holds the position and the texcoord,
  and the normal when the soup has normals, of the vertex \<open>vertexMapping ! i\<close> of the
  soup, unchanged.
\<close>

theorem indexed_mesh_attributes:
  assumes "make_indexed_mesh tgen gHash aSoup eps = Some mesh"
  shows "\<exists>dis vicinityMap vertexMapping.
     make_discretizer aSoup eps = Some dis \<and>
     build_vicinity_map' gHash [] dis (TriangleSoup.vert aSoup) = Some vicinityMap \<and>
     collapse_vertices' gHash vicinityMap dis aSoup eps =
       Some (IndexedMesh.indices mesh, vertexMapping, length vertexMapping) \<and>
     length (IndexedMesh.vert mesh) = length vertexMapping \<and>
     length (IndexedMesh.text_v mesh) = length vertexMapping \<and>
     (TriangleSoup.norm_v aSoup \<noteq> [] \<longrightarrow> length (IndexedMesh.norm_v mesh) = length vertexMapping) \<and>
     (\<forall>i<length vertexMapping.
        vertexMapping ! i < length (TriangleSoup.vert aSoup) \<and>
        IndexedMesh.vert mesh ! i = TriangleSoup.vert aSoup ! (vertexMapping ! i) \<and>
        IndexedMesh.text_v mesh ! i = TriangleSoup.text_v aSoup ! (vertexMapping ! i) \<and>
        (TriangleSoup.norm_v aSoup \<noteq> [] \<longrightarrow>
           IndexedMesh.norm_v mesh ! i = TriangleSoup.norm_v aSoup ! (vertexMapping ! i)))"
proof -
  from assms obtain dis vm inds vmap ret tg where
    d: "make_discretizer aSoup eps = Some dis"
    and b: "build_vicinity_map' gHash [] dis (TriangleSoup.vert aSoup) = Some vm"
    and c: "collapse_vertices' gHash vm dis aSoup eps = Some (inds, vmap, length vmap)"
    and s: "shuffle_vertex_data aSoup vmap (length vmap) = Some ret"
    and m: "mesh = ret \<lparr> IndexedMesh.indices := inds, tangent := tg,
                aabbMin := fst (bounding_volume (TriangleSoup.vert aSoup)),
                aabbMax := snd (bounding_volume (TriangleSoup.vert aSoup)) \<rparr>"
    by (auto simp: make_indexed_mesh_def Let_def split: bind_splits if_splits prod.splits)
  have "shuffled aSoup vmap (length vmap) (length vmap) ret"
    using shuffle_vertex_data_attrs [OF s] .
  then have "shuffled aSoup vmap (length vmap) (length vmap) mesh"
    using m by (simp add: shuffled_def)
  moreover have "IndexedMesh.indices mesh = inds" using m by simp
  ultimately show ?thesis using d b c unfolding shuffled_def by blast
qed



theorem indexed_mesh_attributes_witness:
  "\<exists>mesh. make_indexed_mesh tgen_zero (\<lambda>w. w) soup3 (1 / 8) = Some mesh \<and>
     (\<exists>dis vicinityMap vertexMapping.
        make_discretizer soup3 (1 / 8) = Some dis \<and>
        build_vicinity_map' (\<lambda>w. w) [] dis (TriangleSoup.vert soup3) = Some vicinityMap \<and>
        collapse_vertices' (\<lambda>w. w) vicinityMap dis soup3 (1 / 8) =
          Some (IndexedMesh.indices mesh, vertexMapping, length vertexMapping) \<and>
        length (IndexedMesh.vert mesh) = length vertexMapping \<and>
        (\<forall>i<length vertexMapping.
           IndexedMesh.vert mesh ! i = TriangleSoup.vert soup3 ! (vertexMapping ! i) \<and>
           IndexedMesh.text_v mesh ! i = TriangleSoup.text_v soup3 ! (vertexMapping ! i) \<and>
           IndexedMesh.norm_v mesh ! i = TriangleSoup.norm_v soup3 ! (vertexMapping ! i)))"
proof -
  have n: "TriangleSoup.norm_v soup3 \<noteq> []" by (simp add: soup3_def)
  have w: "wf_soup soup3" by (simp add: wf_soup_def soup3_def)
  have f: "float_positions (TriangleSoup.vert soup3)"
    by (simp add: float_positions_def soup3_def is_float_0 is_float_1)
  obtain mesh where m: "make_indexed_mesh tgen_zero (\<lambda>w. w) soup3 (1 / 8) = Some mesh"
    using make_indexed_mesh_defined [OF w _ f soup3_discretizer, of 4 tgen_zero "\<lambda>w. w"]
    by (auto simp: tgen_zero_def)
  from indexed_mesh_attributes [OF m] n m show ?thesis by blast
qed

section \<open>The grid resolution\<close>

lemma bounding_fold_Min_Max:
  assumes "fold (\<lambda>v (bmin, bmax). (vmin bmin v, vmax bmax v)) vs (a, b) = (lo, hi)"
    and "k < 3"
  shows "vec3_at lo k = Min (insert (vec3_at a k) ((\<lambda>v. vec3_at v k) ` set vs)) \<and>
     vec3_at hi k = Max (insert (vec3_at b k) ((\<lambda>v. vec3_at v k) ` set vs))"
  using assms(1)
proof (induction vs arbitrary: a b)
  case Nil
  then show ?case by simp
next
  case (Cons v vs)
  have f: "fold (\<lambda>v (bmin, bmax). (vmin bmin v, vmax bmax v)) vs (vmin a v, vmax b v) = (lo, hi)"
    using Cons.prems by simp
  have fin: "finite ((\<lambda>v. vec3_at v k) ` set vs)" by simp
  show ?case
    using Cons.IH [OF f] assms(2) fin
    by (cases "set vs = {}") (simp_all add: vec3_at_vmin vec3_at_vmax min.assoc max.assoc min.commute max.commute)
qed

text \<open>The volume that the loop of lines 80 to 84 computes is the bounding box of the soup
  on every axis where the greatest coordinate is at least \<^verbatim>\<open>numeric_limits<float>::min()\<close>,
  the value the upper corner starts with.\<close>

lemma bounding_volume_bbox:
  assumes "vs \<noteq> []" and "k < 3" and "bbox_lower vs k \<le> float_max" and "float_min \<le> bbox_upper vs k"
  shows "vec3_at (fst (bounding_volume vs)) k = bbox_lower vs k"
    and "vec3_at (snd (bounding_volume vs)) k = bbox_upper vs k"
proof -
  obtain lo hi where bv: "bounding_volume vs = (lo, hi)" by (cases "bounding_volume vs")
  have ne: "(\<lambda>v. vec3_at v k) ` set vs \<noteq> {}" using assms(1) by simp
  from bounding_fold_Min_Max [OF bv [unfolded bounding_volume_def] assms(2)]
  have "vec3_at lo k = min float_max (bbox_lower vs k)" "vec3_at hi k = max float_min (bbox_upper vs k)"
    using ne assms(2) by (simp_all add: bbox_lower_def bbox_upper_def)
  then show "vec3_at (fst (bounding_volume vs)) k = bbox_lower vs k"
    and "vec3_at (snd (bounding_volume vs)) k = bbox_upper vs k"
    using assms(3,4) by (simp_all add: bv)
qed

lemma float_positions_bbox:
  assumes "float_positions vs" and "vs \<noteq> []" and "k < 3"
  shows "bbox_lower vs k \<le> float_max"
proof -
  obtain v where v: "v \<in> set vs" using assms(2) by (cases vs) auto
  have "bbox_lower vs k \<le> vec3_at v k" using v by (simp add: bbox_lower_def)
  also have "\<dots> \<le> float_max"
    using is_float_abs [OF float_positions_coord [OF assms(1) v assms(3)]] by simp
  finally show ?thesis .
qed

lemma grid_volume_enlarged:
  assumes "vs \<noteq> []" and "float_positions vs" and "\<forall>k<3. float_min \<le> bbox_upper vs k"
  shows "snd (grid_volume vs eps) = enlarged_longest_side vs eps"
proof -
  have b: "vec3_at (fst (bounding_volume vs)) k = bbox_lower vs k"
      "vec3_at (snd (bounding_volume vs)) k = bbox_upper vs k" if "k < 3" for k
    using bounding_volume_bbox [OF assms(1) that float_positions_bbox [OF assms(2,1) that]]
      assms(3) that by simp_all
  obtain lo hi where bv: "bounding_volume vs = (lo, hi)" by (cases "bounding_volume vs")
  show ?thesis
    using b [of 0] b [of 1] b [of 2]
    by (simp add: grid_volume_def bv Let_def enlarged_longest_side_def enlarged_side_def
        kAABBMarginFactor_def)
qed

text \<open>
  Claim C8, amended.  For a soup that is not empty, holds floats, and has on every axis a
  coordinate of at least \<^verbatim>\<open>numeric_limits<float>::min()\<close> (the volume of lines 77 to 84
  is then the bounding box of the soup), the number of subdivisions is
  \<open>amended_grid_resolution\<close>: the bounding box is enlarged by ten tolerances on every
  side, the longest side of the enlarged box is divided by twice the tolerance, one half is
  added, the sum is truncated and capped at \<open>kSparseGridMaxSize\<close>, every operation in
  single precision; the code has no defined result exactly where this has none.  The
  number is the factor of the discretizer, and the longest side of the enlarged box its
  side.
\<close>

theorem grid_resolution_amended:
  assumes "TriangleSoup.vert aSoup \<noteq> []" and "float_positions (TriangleSoup.vert aSoup)"
    and "\<forall>k<3. float_min \<le> bbox_upper (TriangleSoup.vert aSoup) k"
  shows "grid_subdiv (snd (grid_volume (TriangleSoup.vert aSoup) eps)) eps =
       amended_grid_resolution (TriangleSoup.vert aSoup) eps \<and>
     make_discretizer aSoup eps =
       map_option (\<lambda>n. Discretizer'_ctor (of_nat n) (fst (grid_volume (TriangleSoup.vert aSoup) eps))
                     (enlarged_longest_side (TriangleSoup.vert aSoup) eps))
         (amended_grid_resolution (TriangleSoup.vert aSoup) eps)"
proof -
  have s: "snd (grid_volume (TriangleSoup.vert aSoup) eps) =
      enlarged_longest_side (TriangleSoup.vert aSoup) eps"
    using grid_volume_enlarged [OF assms] .
  have g: "grid_subdiv (enlarged_longest_side (TriangleSoup.vert aSoup) eps) eps =
      amended_grid_resolution (TriangleSoup.vert aSoup) eps"
    by (simp add: grid_subdiv_def amended_grid_resolution_def kSparseGridMaxSize_def)
  show ?thesis
    using g s [symmetric]
    by (cases "grid_volume (TriangleSoup.vert aSoup) eps")
       (auto simp: make_discretizer_def split: bind_splits)
qed


lemma round_even_half_even: "even n \<Longrightarrow> round_even (of_int n + 1 / 2) = n"
proof -
  have "\<lfloor>real_of_int n + 1 / 2\<rfloor> = n" by (intro floor_unique) simp_all
  then show "even n \<Longrightarrow> round_even (of_int n + 1 / 2) = n"
    by (simp add: round_even_def)
qed

lemma float_rnd_tie:
  assumes "2 powi e \<le> \<bar>r\<bar>" and "\<bar>r\<bar> < 2 powi (e + 1)" and "- 126 \<le> e"
    and "r / 2 powi (e - 23) = of_int n + 1 / 2" and "even n"
  shows "float_rnd r = of_int n * 2 powi (e - 23)"
proof -
  have "0 < (2::real) powi e" by simp
  then have "0 < \<bar>r\<bar>" using assms(1) by linarith
  then have r0: "r \<noteq> 0" by simp
  have u: "float_ulp r = 2 powi (e - 23)"
    using float_exp_eq [OF assms(1-3)] by (simp add: float_ulp_def)
  show ?thesis using r0 round_even_half_even [OF assms(5)] by (simp add: float_rnd_def u assms(4))
qed

lemma fround_Fin_small: "float_rnd r = q \<Longrightarrow> \<bar>q\<bar> \<le> 16 \<Longrightarrow> fround r = Fin q"
  by (auto simp: fround_Fin_iff float_max_def)

lemma tenth_steps:
  "fround (10 * tenth) = Fin 1"
  "fround (tenth + 1) = Fin (9227469 / 8388608)"
  "fround (17616077 / 8388608) = Fin (4404019 / 2097152)"
  "fround (2 * tenth) = Fin (13421773 / 67108864)"
  "fround (140928608 / 13421773) = Fin (11010047 / 1048576)"
  "fround (11534335 / 1048576) = Fin (11534335 / 1048576)"
proof -
  show "fround (10 * tenth) = Fin 1"
    using float_rnd_eval [of 0 "10 * tenth" "2 ^ 23"] by (intro fround_Fin_small) (simp_all add: tenth_def)
  show "fround (tenth + 1) = Fin (9227469 / 8388608)"
    using float_rnd_eval [of 0 "tenth + 1" 9227469] by (intro fround_Fin_small) (simp_all add: tenth_def)
  show "fround (17616077 / 8388608) = Fin (4404019 / 2097152)"
    using float_rnd_tie [of 1 "17616077 / 8388608" 8808038] by (intro fround_Fin_small) simp_all
  show "fround (2 * tenth) = Fin (13421773 / 67108864)"
    using float_rnd_rep [of "2 * tenth" 13421773 "- 26"]
    by (intro fround_Fin_small) (simp_all add: tenth_def power_int_minus_divide)
  show "fround (140928608 / 13421773) = Fin (11010047 / 1048576)"
    using float_rnd_eval [of 3 "140928608 / 13421773" 11010047]
    by (intro fround_Fin_small) simp_all
  show "fround (11534335 / 1048576) = Fin (11534335 / 1048576)"
    using float_rnd_rep [of "11534335 / 1048576" 11534335 "- 20"]
    by (intro fround_Fin_small) (simp_all add: power_int_minus_divide)
qed


lemma triangle3_bounds:
  "bounding_volume (TriangleSoup.vert triangle3) = ((0, 0, 0), (3, 3, float_min))"
  by (simp add: triangle3_def bounding_volume_def vmin_def vmax_def float_max_def float_min_def)

lemma triangle3_grid:
  "grid_volume (TriangleSoup.vert triangle3) 1 = ((Fin (- 10), Fin (- 10), Fin (- 10)), Fin 23)"
  by (simp add: grid_volume_def triangle3_bounds Let_def kAABBMarginFactor_def fsub_Fin
      fround_minus fround_numeral fround_float_min_plus std_max_def)

lemma triangle3_subdiv: "grid_subdiv (Fin 23) 1 = Some 12"
  by (simp add: grid_subdiv_def fround_numeral fround_halves to_size_t_def kSparseGridMaxSize_def)

lemma triangle3_side: "bbox_longest_side (TriangleSoup.vert triangle3) = 3"
  by (simp add: bbox_longest_side_def bbox_lower_def bbox_upper_def triangle3_def)

text \<open>
  Claim C8 as stated fails: for the triangle \<open>triangle3\<close>, whose bounding box has the
  longest side 3, and the tolerance 1 the code uses 12 subdivisions, while the formula of
  the claim gives 3/2.
\<close>

theorem grid_resolution_counterexample:
  "grid_subdiv (snd (grid_volume (TriangleSoup.vert triangle3) 1)) 1 = Some 12 \<and>
   make_discretizer triangle3 1 =
     Some (Discretizer'_ctor 12 (Fin (- 10), Fin (- 10), Fin (- 10)) (Fin 23)) \<and>
   bbox_longest_side (TriangleSoup.vert triangle3) = 3 \<and>
   spec_grid_resolution (bbox_longest_side (TriangleSoup.vert triangle3)) 1 = 3 / 2 \<and>
   real 12 \<noteq> spec_grid_resolution (bbox_longest_side (TriangleSoup.vert triangle3)) 1"
  by (simp add: triangle3_grid triangle3_subdiv triangle3_side make_discretizer_def
      spec_grid_resolution_def kSparseGridMaxSize_def)

lemma is_float_tenth: "is_float tenth"
  using is_float_dyadic [of 13421773 "- 27"] by (simp add: tenth_def power_int_minus_divide)

lemma triangle_tenth_bbox:
  "k < 3 \<Longrightarrow> bbox_lower (TriangleSoup.vert triangle_tenth) k = 0"
  "k < 3 \<Longrightarrow> bbox_upper (TriangleSoup.vert triangle_tenth) k = tenth"
proof -
  have t: "0 < tenth" by (simp add: tenth_def)
  assume "k < 3"
  then have "k = 0 \<or> k = 1 \<or> k = 2" by auto
  then show "bbox_lower (TriangleSoup.vert triangle_tenth) k = 0"
    "bbox_upper (TriangleSoup.vert triangle_tenth) k = tenth"
    using t by (auto simp: bbox_lower_def bbox_upper_def triangle_tenth_def)
qed

lemma triangle_tenth_side:
  "k < 3 \<Longrightarrow> enlarged_side (TriangleSoup.vert triangle_tenth) tenth k = Fin (4404019 / 2097152)"
  by (simp add: enlarged_side_def triangle_tenth_bbox fsub_Fin tenth_steps fround_minus fround_one)

lemma triangle_tenth_resolution:
  "amended_grid_resolution (TriangleSoup.vert triangle_tenth) tenth = Some 10"
  by (simp add: amended_grid_resolution_def enlarged_longest_side_def triangle_tenth_side
      std_max_def tenth_steps to_size_t_def)

theorem grid_resolution_amended_witness:
  "TriangleSoup.vert triangle_tenth \<noteq> [] \<and> float_positions (TriangleSoup.vert triangle_tenth) \<and>
   float_min \<le> bbox_upper (TriangleSoup.vert triangle_tenth) 0 \<and>
   float_min \<le> bbox_upper (TriangleSoup.vert triangle_tenth) 1 \<and>
   float_min \<le> bbox_upper (TriangleSoup.vert triangle_tenth) 2 \<and>
   grid_subdiv (snd (grid_volume (TriangleSoup.vert triangle_tenth) tenth)) tenth = Some 10 \<and>
   make_discretizer triangle_tenth tenth =
     Some (Discretizer'_ctor 10 (fst (grid_volume (TriangleSoup.vert triangle_tenth) tenth))
             (Fin (4404019 / 2097152))) \<and>
   (bbox_longest_side (TriangleSoup.vert triangle_tenth) + 20 * tenth) / (2 * tenth) + 1 / 2 = 11"
proof -
  have n: "TriangleSoup.vert triangle_tenth \<noteq> []" by (simp add: triangle_tenth_def)
  have f: "float_positions (TriangleSoup.vert triangle_tenth)"
    by (simp add: float_positions_def triangle_tenth_def is_float_0 is_float_tenth)
  have u: "\<forall>k<3. float_min \<le> bbox_upper (TriangleSoup.vert triangle_tenth) k"
    by (simp add: triangle_tenth_bbox tenth_def float_min_def)
  have l: "enlarged_longest_side (TriangleSoup.vert triangle_tenth) tenth = Fin (4404019 / 2097152)"
    by (simp add: enlarged_longest_side_def triangle_tenth_side std_max_def)
  have b: "bbox_longest_side (TriangleSoup.vert triangle_tenth) = tenth"
    by (simp add: bbox_longest_side_def triangle_tenth_bbox)
  have e: "(bbox_longest_side (TriangleSoup.vert triangle_tenth) + 20 * tenth) / (2 * tenth) + 1 / 2 = 11"
    by (simp add: b tenth_def)
  from grid_resolution_amended [OF n f u, of tenth] show ?thesis
    using n f u [unfolded all_less3] e by (simp add: triangle_tenth_resolution l)
qed

section \<open>Bytes of integers\<close>

lemma word_of_char_of_word: "(word_of_char (char_of_word w) :: 'a::len word) = take_bit 8 w"
proof -
  have "unat w mod 256 = take_bit 8 (unat w)" by (simp add: take_bit_eq_mod)
  then have "(of_nat (unat w mod 256) :: 'a word) = of_nat (take_bit 8 (unat w))" by simp
  also have "\<dots> = take_bit 8 (of_nat (unat w))" by (simp add: of_nat_take_bit)
  finally show ?thesis by (simp add: word_of_char_def char_of_word_def)
qed

lemma uint32_bytes_roundtrip: "uint32_of_bytes (bytes_of_uint32 w) = w"
proof -
  have "take_bit 8 w OR push_bit 8 (take_bit 8 (drop_bit 8 w)) OR
      push_bit 16 (take_bit 8 (drop_bit 16 w)) OR push_bit 24 (take_bit 8 (drop_bit 24 w)) = w"
  proof (rule bit_word_eqI)
    fix n assume "n < LENGTH(32)"
    then consider "n < 8" | "8 \<le> n" "n < 16" | "16 \<le> n" "n < 24" | "24 \<le> n" "n < 32"
      by fastforce
    then show "bit (take_bit 8 w OR push_bit 8 (take_bit 8 (drop_bit 8 w)) OR
      push_bit 16 (take_bit 8 (drop_bit 16 w)) OR push_bit 24 (take_bit 8 (drop_bit 24 w))) n = bit w n"
      by cases (auto simp: bit_simps)
  qed
  then show ?thesis
    by (simp add: uint32_of_bytes_def bytes_of_uint32_def word_of_char_of_word)
qed

lemma length_bytes_of_uint32: "length (bytes_of_uint32 w) = 4"
  by (simp add: bytes_of_uint32_def)

lemma byte_roundtrip: "(word_of_char (char_of_word w) :: 8 word) = w"
  by (simp add: word_of_char_of_word take_bit_word_eq_self)

section \<open>What the readers consume\<close>

lemma reads_exactlyI:
  assumes "\<And>bs v rest. r bs = Inr (v, rest) \<Longrightarrow>
     \<exists>c. bs = c @ rest \<and> (\<forall>ext. r (c @ ext) = Inr (v, ext)) \<and>
          (\<forall>k<length c. r (take k c) = Inl ShortRead)"
  shows "reads_exactly r"
  using assms unfolding reads_exactly_def by blast

lemma reads_exactlyD:
  assumes "reads_exactly r" and "r bs = Inr (v, rest)"
  obtains c where "bs = c @ rest" and "\<And>ext. r (c @ ext) = Inr (v, ext)"
    and "\<And>k. k < length c \<Longrightarrow> r (take k c) = Inl ShortRead"
  using assms unfolding reads_exactly_def by blast

lemma reads_checked_read: "reads_exactly (\<lambda>bs. checked_read' bs n)"
proof (rule reads_exactlyI)
  fix bs v rest assume "checked_read' bs n = Inr (v, rest)"
  then have n: "n \<le> length bs" and v: "v = take n bs" and r: "rest = drop n bs"
    by (auto simp: checked_read'_def split: if_splits)
  have "bs = take n bs @ rest" using r by simp
  moreover have "\<forall>ext. checked_read' (take n bs @ ext) n = Inr (v, ext)"
    using n v by (simp add: checked_read'_def)
  moreover have "\<forall>k<length (take n bs). checked_read' (take k (take n bs)) n = Inl ShortRead"
    using n by (simp add: checked_read'_def)
  ultimately show "\<exists>c. bs = c @ rest \<and> (\<forall>ext. checked_read' (c @ ext) n = Inr (v, ext)) \<and>
          (\<forall>k<length c. checked_read' (take k c) n = Inl ShortRead)"
    by blast
qed

lemma reads_bind:
  assumes "reads_exactly r1" and "\<And>v. reads_exactly (r2 v)"
  shows "reads_exactly (bindR r1 r2)"
  unfolding bindR_def
proof (rule reads_exactlyI)
  fix bs w rest
  assume a: "(case r1 bs of Inl e \<Rightarrow> Inl e | Inr (v, rest) \<Rightarrow> r2 v rest) = Inr (w, rest)"
  then obtain v mid where 1: "r1 bs = Inr (v, mid)" and 2: "r2 v mid = Inr (w, rest)"
    by (auto split: sum.splits)
  from reads_exactlyD [OF assms(1) 1] obtain c1 where
    c1: "bs = c1 @ mid" "\<And>ext. r1 (c1 @ ext) = Inr (v, ext)"
        "\<And>k. k < length c1 \<Longrightarrow> r1 (take k c1) = Inl ShortRead" by blast
  from reads_exactlyD [OF assms(2) 2] obtain c2 where
    c2: "mid = c2 @ rest" "\<And>ext. r2 v (c2 @ ext) = Inr (w, ext)"
        "\<And>k. k < length c2 \<Longrightarrow> r2 v (take k c2) = Inl ShortRead" by blast
  let ?r = "\<lambda>bs. case r1 bs of Inl e \<Rightarrow> Inl e | Inr (v, rest) \<Rightarrow> r2 v rest"
  have "bs = (c1 @ c2) @ rest" using c1(1) c2(1) by simp
  moreover have "\<forall>ext. ?r ((c1 @ c2) @ ext) = Inr (w, ext)"
    using c1(2) c2(2) by simp
  moreover have "\<forall>k<length (c1 @ c2). ?r (take k (c1 @ c2)) = Inl ShortRead"
  proof (intro allI impI)
    fix k assume k: "k < length (c1 @ c2)"
    show "?r (take k (c1 @ c2)) = Inl ShortRead"
    proof (cases "k < length c1")
      case True
      then show ?thesis using c1(3) by simp
    next
      case False
      then have "take k (c1 @ c2) = c1 @ take (k - length c1) c2" by simp
      moreover have "k - length c1 < length c2" using k False by simp
      ultimately show ?thesis using c1(2) c2(3) by simp
    qed
  qed
  ultimately show "\<exists>c. bs = c @ rest \<and> (\<forall>ext. ?r (c @ ext) = Inr (w, ext)) \<and>
          (\<forall>k<length c. ?r (take k c) = Inl ShortRead)"
    by blast
qed

lemma reads_return: "reads_exactly (\<lambda>bs. Inr (v, bs))"
  by (rule reads_exactlyI) auto

lemma reads_fail: "reads_exactly (\<lambda>bs. Inl e)"
  by (rule reads_exactlyI) auto

lemma reads_if:
  assumes "reads_exactly r" and "reads_exactly s"
  shows "reads_exactly (\<lambda>bs. if b then r bs else s bs)"
  using assms by (cases b) simp_all

lemma reads_uint32: "reads_exactly read_uint32'"
proof -
  have eq: "read_uint32' = bindR (\<lambda>bs. checked_read' bs 4) (\<lambda>v rest. Inr (uint32_of_bytes v, rest))"
    by (rule ext) (simp only: read_uint32'_def bindR_def)
  show ?thesis unfolding eq
    by (intro reads_bind reads_checked_read reads_return)
qed

lemma reads_string: "reads_exactly read_string'"
proof -
  have eq: "read_string' = bindR read_uint32'
      (\<lambda>len rest. if len \<ge> kMaxString then Inl (LongString len) else checked_read' rest (unat len))"
    by (rule ext) (simp only: read_string'_def bindR_def)
  show ?thesis unfolding eq
    by (intro reads_bind reads_uint32 reads_if reads_fail reads_checked_read)
qed

lemma reads_repeat:
  assumes "reads_exactly item"
  shows "reads_exactly (read_repeat n item)"
proof (induction n)
  case 0
  have "read_repeat 0 item = (\<lambda>bs. Inr ([], bs))" by (rule ext) simp
  then show ?case using reads_return by simp
next
  case (Suc n)
  have eq: "read_repeat (Suc n) item =
      bindR item (\<lambda>v. bindR (read_repeat n item) (\<lambda>vs rest. Inr (v # vs, rest)))"
    by (rule ext) (simp only: read_repeat.simps bindR_def)
  show ?case unfolding eq
    by (intro reads_bind assms Suc reads_return)
qed

lemma reads_texture: "reads_exactly (read_texture prefix)"
proof -
  have eq: "read_texture prefix = bindR read_string' (\<lambda>s. bindR (\<lambda>bs. checked_read' bs 1)
      (\<lambda>c rest. Inr (\<lparr> path = prefix @ s, channels = word_of_char (c ! 0) \<rparr>, rest)))"
    by (rule ext) (simp only: read_texture_def bindR_def)
  show ?thesis unfolding eq
    by (intro reads_bind reads_string reads_checked_read reads_return)
qed

lemma reads_material: "reads_exactly (read_material asserts ntex)"
proof -
  have eq: "read_material asserts ntex =
      bindR read_uint32' (\<lambda>b. bindR read_uint32' (\<lambda>r. bindR read_uint32' (\<lambda>m.
      bindR read_uint32' (\<lambda>a. bindR read_uint32' (\<lambda>n aFin.
        if asserts \<and> \<not> (unat b < ntex \<and> unat r < ntex \<and> unat m < ntex) then Inl AssertFailed
        else Inr (\<lparr> baseColorTextureId = b, roughnessTextureId = r, metalnessTextureId = m,
                    alphaMaskTextureId = a, normalMapTextureId = n \<rparr>, aFin))))))"
    by (rule ext) (simp only: read_material_def bindR_def)
  show ?thesis unfolding eq
    by (intro reads_bind reads_uint32 reads_if reads_fail reads_return)
qed

lemma reads_mesh: "reads_exactly (read_mesh asserts nmat)"
proof -
  have eq: "read_mesh asserts nmat =
      bindR read_uint32' (\<lambda>mid aFin.
      if asserts \<and> \<not> unat mid < nmat then Inl AssertFailed else
      bindR read_uint32' (\<lambda>V. bindR read_uint32' (\<lambda>I.
      bindR (\<lambda>bs. checked_read' bs (unat V * 12)) (\<lambda>ps.
      bindR (\<lambda>bs. checked_read' bs (unat V * 12)) (\<lambda>ns.
      bindR (\<lambda>bs. checked_read' bs (unat V * 8)) (\<lambda>ts.
      bindR (\<lambda>bs. checked_read' bs (unat V * 16)) (\<lambda>gs.
      bindR (\<lambda>bs. checked_read' bs (unat I * 4)) (\<lambda>is aFin.
        Inr (\<lparr> materialId = mid,
               positions = array_of_bytes 12 vec3_of_bytes (unat V) ps,
               texcoords = array_of_bytes 8 vec2_of_bytes (unat V) ts,
               normals = array_of_bytes 12 vec3_of_bytes (unat V) ns,
               tangents = array_of_bytes 16 vec4_of_bytes (unat V) gs,
               indices = array_of_bytes 4 uint32_of_bytes (unat I) is \<rparr>, aFin)))))))) aFin)"
    by (rule ext) (simp only: read_mesh_def bindR_def)
  show ?thesis unfolding eq
    by (intro reads_bind reads_uint32 reads_if reads_fail reads_return reads_checked_read)
qed

lemma reads_tables: "reads_exactly (\<lambda>bs. load_tables asserts bs name)"
proof -
  have eq: "(\<lambda>bs. load_tables asserts bs name) =
      bindR (\<lambda>bs. checked_read' bs 16) (\<lambda>magic aFin.
      if magic \<noteq> kFileMagic then Inl InvalidSignature else
      bindR (\<lambda>bs. checked_read' bs 16) (\<lambda>variant aFin.
      if variant \<noteq> kFileVariant then Inl WrongVariant else
      bindR read_uint32' (\<lambda>textureCount.
      bindR (read_repeat (unat textureCount) (read_texture (path_prefix name))) (\<lambda>texs.
      bindR read_uint32' (\<lambda>materialCount.
      bindR (read_repeat (unat materialCount) (read_material asserts (length texs))) (\<lambda>mats.
      bindR read_uint32' (\<lambda>meshCount.
      bindR (read_repeat (unat meshCount) (read_mesh asserts (length mats))) (\<lambda>ms aFin.
        Inr (\<lparr> textures = texs, materials = mats, meshes = ms \<rparr>, aFin))))))) aFin) aFin)"
    by (rule ext) (simp only: load_tables_def bindR_def)
  show ?thesis unfolding eq
    by (intro reads_bind reads_uint32 reads_if reads_fail reads_return
        reads_checked_read reads_repeat reads_texture reads_material reads_mesh)
qed

section \<open>Loading a container\<close>

lemma checked_read_append:
  "length xs = n \<Longrightarrow> checked_read' (xs @ rest) n = Inr (xs, rest)"
  by (simp add: checked_read'_def)

lemma read_uint32_bytes: "read_uint32' (bytes_of_uint32 w @ rest) = Inr (w, rest)"
  by (simp add: read_uint32'_def checked_read_append length_bytes_of_uint32 uint32_bytes_roundtrip)

lemma length_kFileMagic: "length kFileMagic = 16"
  by (simp add: kFileMagic_def)

lemma length_kFileVariant: "length kFileVariant = 16"
  by (simp add: kFileVariant_def)

lemma load_tables_header:
  "load_tables asserts (kFileMagic @ kFileVariant @ bytes_of_uint32 textureCount @ body) name =
     (case read_repeat (unat textureCount) (read_texture (path_prefix name)) body of
        Inl e \<Rightarrow> Inl e | Inr (texs, aFin) \<Rightarrow>
      case read_uint32' aFin of Inl e \<Rightarrow> Inl e | Inr (materialCount, aFin) \<Rightarrow>
      case read_repeat (unat materialCount) (read_material asserts (length texs)) aFin of
        Inl e \<Rightarrow> Inl e | Inr (mats, aFin) \<Rightarrow>
      case read_uint32' aFin of Inl e \<Rightarrow> Inl e | Inr (meshCount, aFin) \<Rightarrow>
      case read_repeat (unat meshCount) (read_mesh asserts (length mats)) aFin of
        Inl e \<Rightarrow> Inl e | Inr (ms, aFin) \<Rightarrow>
        Inr (\<lparr> textures = texs, materials = mats, meshes = ms \<rparr>, aFin))"
  by (simp add: load_tables_def checked_read_append length_kFileMagic length_kFileVariant
      read_uint32_bytes)

lemma load_tables_empty:
  "load_tables asserts empty_container name =
     Inr (\<lparr> textures = [], materials = [], meshes = [] \<rparr>, [])"
  using load_tables_header [of asserts 0 "bytes_of_uint32 0 @ bytes_of_uint32 0" name]
    read_uint32_bytes [of 0 "bytes_of_uint32 0"] read_uint32_bytes [of 0 "[]"]
  by (simp add: empty_container_def)

lemma load_tables_extend:
  assumes "load_tables asserts bs name = Inr (model, rest)"
  shows "load_tables asserts (bs @ extra) name = Inr (model, rest @ extra)"
proof -
  from reads_exactlyD [OF reads_tables assms] obtain c where
    c: "bs = c @ rest" "\<And>ext. load_tables asserts (c @ ext) name = Inr (model, ext)" by blast
  show ?thesis using c(2) [of "rest @ extra"] c(1) by simp
qed

lemma load_tables_truncate:
  assumes "load_tables asserts bs name = Inr (model, rest)" and "k < length bs - length rest"
  shows "load_tables asserts (take k bs) name = Inl ShortRead"
proof -
  from reads_exactlyD [OF reads_tables assms(1)] obtain c where
    c: "bs = c @ rest" "\<And>k. k < length c \<Longrightarrow> load_tables asserts (take k c) name = Inl ShortRead"
    by blast
  have "k < length c" using assms(2) c(1) by simp
  then show ?thesis using c(2) [of k] c(1) by simp
qed

text \<open>
  Claim C10.  When a container loads and leaves no byte unread, the same container
  followed by at least one more byte loads as well, with the same model; the only
  difference is that the note on trailing bytes is printed.
\<close>

theorem trailing_bytes_tolerated:
  assumes "load_baked_model' asserts container name = Inr (model, False)"
    and "extra \<noteq> []"
  shows "load_baked_model' asserts (container @ extra) name = Inr (model, True) \<and>
     load_baked_model asserts (Some (container @ extra)) name = Inr model"
proof -
  from assms(1) have "load_tables asserts container name = Inr (model, [])"
    by (auto simp: load_baked_model'_def split: sum.splits)
  from load_tables_extend [OF this, of extra] assms(2) show ?thesis
    by (simp add: load_baked_model'_def load_baked_model_def)
qed

theorem trailing_bytes_tolerated_witness:
  "load_baked_model' True empty_container ''a/b.comp5822mesh'' =
     Inr (\<lparr> textures = [], materials = [], meshes = [] \<rparr>, False) \<and>
   load_baked_model' True (empty_container @ ''xyz'') ''a/b.comp5822mesh'' =
     Inr (\<lparr> textures = [], materials = [], meshes = [] \<rparr>, True) \<and>
   load_baked_model True (Some (empty_container @ ''xyz'')) ''a/b.comp5822mesh'' =
     Inr \<lparr> textures = [], materials = [], meshes = [] \<rparr>"
proof -
  have h: "load_baked_model' True empty_container ''a/b.comp5822mesh'' =
     Inr (\<lparr> textures = [], materials = [], meshes = [] \<rparr>, False)"
    by (simp add: load_baked_model'_def load_tables_empty)
  from trailing_bytes_tolerated [OF h, of "''xyz''"] h show ?thesis by simp
qed

text \<open>
  Claim C4.  A file whose first 16 bytes are not the magic, a file with the magic whose
  next 16 bytes are not the variant tag, and every proper prefix of a container that
  loads: on each \<open>load_baked_model\<close> ends with an error (a short read when the bytes run
  out, the error of the signature or of the variant otherwise), and an error carries no
  model.
\<close>

theorem load_rejects_malformed:
  "(take 16 bs \<noteq> kFileMagic \<longrightarrow>
      load_baked_model asserts (Some bs) name =
        Inl (if length bs < 16 then ShortRead else InvalidSignature)) \<and>
   (take 16 bs = kFileMagic \<and> take 16 (drop 16 bs) \<noteq> kFileVariant \<longrightarrow>
      load_baked_model asserts (Some bs) name =
        Inl (if length bs < 32 then ShortRead else WrongVariant)) \<and>
   (\<forall>model k. load_baked_model' asserts bs name = Inr (model, False) \<and> k < length bs \<longrightarrow>
      load_baked_model asserts (Some (take k bs)) name = Inl ShortRead)"
proof (intro conjI impI allI)
  assume "take 16 bs \<noteq> kFileMagic"
  then show "load_baked_model asserts (Some bs) name =
        Inl (if length bs < 16 then ShortRead else InvalidSignature)"
    by (simp add: load_baked_model_def load_baked_model'_def load_tables_def checked_read'_def)
next
  assume a: "take 16 bs = kFileMagic \<and> take 16 (drop 16 bs) \<noteq> kFileVariant"
  then have "length (take 16 bs) = 16" by (simp add: length_kFileMagic)
  then have "16 \<le> length bs" by simp
  then show "load_baked_model asserts (Some bs) name =
        Inl (if length bs < 32 then ShortRead else WrongVariant)"
    using a
    by (auto simp: load_baked_model_def load_baked_model'_def load_tables_def checked_read'_def)
next
  fix model k
  assume a: "load_baked_model' asserts bs name = Inr (model, False) \<and> k < length bs"
  then have "load_tables asserts bs name = Inr (model, [])"
    by (auto simp: load_baked_model'_def split: sum.splits)
  from load_tables_truncate [OF this, of k] a
  show "load_baked_model asserts (Some (take k bs)) name = Inl ShortRead"
    by (simp add: load_baked_model_def load_baked_model'_def)
qed


theorem load_rejects_malformed_witness:
  "load_baked_model True (Some (''0123456789abcdef0123456789abcdef0123456789ab'')) ''m.comp5822mesh'' = Inl InvalidSignature \<and>
   load_baked_model True (Some ''abc'') ''m.comp5822mesh'' = Inl ShortRead \<and>
   load_baked_model True (Some (kFileMagic @ ''0123456789abcdef0123456789ab'')) ''m.comp5822mesh'' =
     Inl WrongVariant \<and>
   load_baked_model' True empty_container ''m.comp5822mesh'' =
     Inr (\<lparr> textures = [], materials = [], meshes = [] \<rparr>, False) \<and>
   length empty_container = 44 \<and>
   load_baked_model True (Some (take 43 empty_container)) ''m.comp5822mesh'' = Inl ShortRead"
proof -
  have h: "load_baked_model' True empty_container ''m.comp5822mesh'' =
     Inr (\<lparr> textures = [], materials = [], meshes = [] \<rparr>, False)"
    by (simp add: load_baked_model'_def load_tables_empty)
  have l: "length empty_container = 44"
    by (simp add: empty_container_def length_kFileMagic length_kFileVariant length_bytes_of_uint32)
  have 1: "take 16 (''0123456789abcdef0123456789abcdef0123456789ab'') \<noteq> kFileMagic" by (simp add: kFileMagic_def)
  have 2: "take 16 ''abc'' \<noteq> kFileMagic" by (simp add: kFileMagic_def)
  have 3: "take 16 (kFileMagic @ ''0123456789abcdef0123456789ab'') = kFileMagic \<and>
      take 16 (drop 16 (kFileMagic @ ''0123456789abcdef0123456789ab'')) \<noteq> kFileVariant"
    by (simp add: length_kFileMagic) (simp add: kFileVariant_def)
  from load_rejects_malformed [of "''0123456789abcdef0123456789abcdef0123456789ab''" True "''m.comp5822mesh''"]
    load_rejects_malformed [of "''abc''" True "''m.comp5822mesh''"]
    load_rejects_malformed [of "kFileMagic @ ''0123456789abcdef0123456789ab''" True "''m.comp5822mesh''"]
    load_rejects_malformed [of empty_container True "''m.comp5822mesh''"]
    1 2 3 h l
  show ?thesis by (simp add: length_kFileMagic)
qed

lemma read_repeat_fail:
  assumes "read_repeat k item bs = Inr (vs, mid)" and "item mid = Inl e" and "k < n"
  shows "read_repeat n item bs = Inl e"
  using assms
proof (induction k arbitrary: n bs vs)
  case 0
  then obtain m where "n = Suc m" by (cases n) auto
  then show ?case using 0 by simp
next
  case (Suc k)
  then obtain m where n: "n = Suc m" "k < m" by (cases n) auto
  from Suc.prems(1) obtain v r ws where
    1: "item bs = Inr (v, r)" "read_repeat k item r = Inr (ws, mid)"
    by (auto split: sum.splits)
  from Suc.IH [OF 1(2) Suc.prems(2) n(2)] show ?case using 1(1) n(1) by simp
qed

lemma unat_kMaxString: "unat kMaxString = 32768"
  by (simp add: kMaxString_def)

text \<open>
  Claim C9.  \<open>read_string'\<close> fails on a declared length of 32768 or more and returns the
  declared number of bytes for a smaller one when the file has them; and a container
  whose texture table has such a length at the path of a texture, after \<open>k\<close> textures
  that were read, does not load.
\<close>

theorem string_limit:
  "(32768 \<le> unat len \<longrightarrow>
      read_string' (bytes_of_uint32 len @ rest) = Inl (LongString len)) \<and>
   (unat len < 32768 \<and> unat len \<le> length rest \<longrightarrow>
      read_string' (bytes_of_uint32 len @ rest) =
        Inr (take (unat len) rest, drop (unat len) rest)) \<and>
   (\<forall>texs. 32768 \<le> unat len \<and> k < unat textureCount \<and>
      read_repeat k (read_texture (path_prefix name)) body =
        Inr (texs, bytes_of_uint32 len @ rest) \<longrightarrow>
      load_baked_model asserts
        (Some (kFileMagic @ kFileVariant @ bytes_of_uint32 textureCount @ body)) name =
        Inl (LongString len))"
proof (intro conjI impI allI)
  assume "32768 \<le> unat len"
  then have "kMaxString \<le> len" by (simp add: word_le_nat_alt unat_kMaxString)
  then show "read_string' (bytes_of_uint32 len @ rest) = Inl (LongString len)"
    by (simp add: read_string'_def read_uint32_bytes)
next
  assume a: "unat len < 32768 \<and> unat len \<le> length rest"
  then have "\<not> kMaxString \<le> len" by (simp add: word_le_nat_alt unat_kMaxString)
  then show "read_string' (bytes_of_uint32 len @ rest) =
        Inr (take (unat len) rest, drop (unat len) rest)"
    using a by (simp add: read_string'_def read_uint32_bytes checked_read'_def)
next
  fix texs
  assume a: "32768 \<le> unat len \<and> k < unat textureCount \<and>
      read_repeat k (read_texture (path_prefix name)) body =
        Inr (texs, bytes_of_uint32 len @ rest)"
  then have "kMaxString \<le> len" by (simp add: word_le_nat_alt unat_kMaxString)
  then have "read_texture (path_prefix name) (bytes_of_uint32 len @ rest) = Inl (LongString len)"
    by (simp add: read_texture_def read_string'_def read_uint32_bytes)
  with a have "read_repeat (unat textureCount) (read_texture (path_prefix name)) body =
      Inl (LongString len)"
    using read_repeat_fail by blast
  then show "load_baked_model asserts
        (Some (kFileMagic @ kFileVariant @ bytes_of_uint32 textureCount @ body)) name =
        Inl (LongString len)"
    by (simp add: load_baked_model_def load_baked_model'_def load_tables_header)
qed

theorem string_limit_witness:
  "read_string' (bytes_of_uint32 32768 @ replicate 32768 CHR ''a'') = Inl (LongString 32768) \<and>
   read_string' (bytes_of_uint32 3 @ ''ab'' @ [CHR 0x00, CHR 0x04]) = Inr (''ab'' @ [CHR 0x00], [CHR 0x04]) \<and>
   load_baked_model True
     (Some (kFileMagic @ kFileVariant @ bytes_of_uint32 1 @ bytes_of_uint32 32768 @ replicate 32768 CHR ''a''))
     ''m.comp5822mesh'' = Inl (LongString 32768)"
proof -
  have r: "read_repeat 0 (read_texture (path_prefix ''m.comp5822mesh''))
      (bytes_of_uint32 32768 @ replicate 32768 CHR ''a'') =
      Inr ([], bytes_of_uint32 32768 @ replicate 32768 CHR ''a'')" by simp
  from string_limit [of 32768 "replicate 32768 CHR ''a''" 0 1 "''m.comp5822mesh''"
      "bytes_of_uint32 32768 @ replicate 32768 CHR ''a''" True]
    string_limit [of 3 "''ab'' @ [CHR 0x00, CHR 0x04]"] r
  show ?thesis by simp
qed

section \<open>Writing a container and loading it\<close>

lemma those_map_Some:
  assumes "those (map f xs) = Some ys"
  shows "ys = map (\<lambda>x. the (f x)) xs \<and> (\<forall>x\<in>set xs. f x \<noteq> None)"
  using assms
proof (induction xs arbitrary: ys)
  case Nil
  then show ?case by simp
next
  case (Cons x xs)
  then show ?case by (auto split: option.splits)
qed

lemma read_repeat_concat:
  assumes "\<And>x rest. x \<in> set xs \<Longrightarrow> item (enc x @ rest) = Inr (dec x, rest)"
  shows "read_repeat (length xs) item (concat (map enc xs) @ rest) = Inr (map dec xs, rest)"
  using assms
proof (induction xs)
  case Nil
  then show ?case by simp
next
  case (Cons x xs)
  then show ?case by simp
qed

lemma array_roundtrip:
  assumes "\<And>x. length (enc x) = sz" and "\<And>x. dec (enc x) = x"
  shows "array_of_bytes sz dec (length xs) (concat (map enc xs)) = xs"
  using assms by (induction xs) simp_all

lemma length_concat_enc:
  assumes "\<And>x. length (enc x) = sz"
  shows "length (concat (map enc xs)) = length xs * sz"
  using assms by (induction xs) simp_all

lemma length_bytes_of_vec3: "length (bytes_of_vec3 v) = 12"
  by (cases v) (simp add: bytes_of_vec3_def length_bytes_of_uint32)

lemma length_bytes_of_vec2: "length (bytes_of_vec2 v) = 8"
  by (cases v) (simp add: bytes_of_vec2_def length_bytes_of_uint32)

lemma length_bytes_of_vec4: "length (bytes_of_vec4 v) = 16"
  by (cases v) (simp add: bytes_of_vec4_def length_bytes_of_uint32)

lemma vec3_roundtrip: "vec3_of_bytes (bytes_of_vec3 v) = v"
  by (cases v) (simp add: bytes_of_vec3_def vec3_of_bytes_def length_bytes_of_uint32
      uint32_bytes_roundtrip)

lemma vec2_roundtrip: "vec2_of_bytes (bytes_of_vec2 v) = v"
  by (cases v) (simp add: bytes_of_vec2_def vec2_of_bytes_def length_bytes_of_uint32
      uint32_bytes_roundtrip)

lemma vec4_roundtrip: "vec4_of_bytes (bytes_of_vec4 v) = v"
  by (cases v) (simp add: bytes_of_vec4_def vec4_of_bytes_def length_bytes_of_uint32
      uint32_bytes_roundtrip)

lemma unat_of_nat32: "n < 2 ^ 32 \<Longrightarrow> unat (of_nat n :: 32 word) = n"
  by (simp add: unat_of_nat take_bit_nat_eq_self)

lemma read_string_written:
  assumes "length s + 1 < 32768"
  shows "read_string' (write_string' s @ rest) = Inr (s @ [CHR 0x00], rest)"
proof -
  have u: "unat (of_nat (length s + 1) :: 32 word) = length s + 1"
    using assms by (intro unat_of_nat32) simp
  then have "\<not> kMaxString \<le> (of_nat (length s + 1) :: 32 word)"
    using assms by (simp add: word_le_nat_alt unat_kMaxString del: of_nat_Suc of_nat_add)
  moreover have "checked_read' ((s @ [CHR 0x00]) @ rest) (length s + 1) = Inr (s @ [CHR 0x00], rest)"
    by (rule checked_read_append) simp
  ultimately show ?thesis using u
    by (simp add: write_string'_def Let_def read_string'_def read_uint32_bytes
        del: of_nat_Suc of_nat_add)
qed

lemma read_texture_written:
  assumes "length (c_str (newPath t)) + 1 < 32768"
  shows "read_texture prefix (the (write_texture (Some t)) @ rest) = Inr (baked_texture prefix t, rest)"
  using read_string_written [OF assms]
  by (simp add: read_texture_def write_texture_def checked_read'_def baked_texture_def byte_roundtrip)


lemma write_tex_bytes:
  assumes "write_tex' aTextures p = Some b"
  shows "b = bytes_of_uint32 (texture_index aTextures p)"
proof -
  have e: "(4294967295 :: 32 word) = - 1" by simp
  show ?thesis
    using assms by (auto simp: write_tex'_def texture_index_def e split: if_splits option.splits)
qed

lemma read_material_written:
  assumes "write_material aTextures mat = Some bs"
    and "asserts \<longrightarrow>
       unat (texture_index aTextures (baseColorTexturePath mat)) < ntex \<and>
       unat (texture_index aTextures (roughnessTexturePath mat)) < ntex \<and>
       unat (texture_index aTextures (metalnessTexturePath mat)) < ntex"
  shows "read_material asserts ntex (bs @ rest) = Inr (baked_material aTextures mat, rest)"
proof -
  from assms(1) obtain b r m a n where
    w: "write_tex' aTextures (baseColorTexturePath mat) = Some b"
       "write_tex' aTextures (roughnessTexturePath mat) = Some r"
       "write_tex' aTextures (metalnessTexturePath mat) = Some m"
       "write_tex' aTextures (alphaMaskTexturePath mat) = Some a"
       "write_tex' aTextures (normalMapTexturePath mat) = Some n"
    and bs: "bs = b @ r @ m @ a @ n"
    by (auto simp: write_material_def split: bind_splits)
  show ?thesis
    using assms(2)
    unfolding bs write_tex_bytes [OF w(1)] write_tex_bytes [OF w(2)] write_tex_bytes [OF w(3)]
      write_tex_bytes [OF w(4)] write_tex_bytes [OF w(5)]
    by (simp add: read_material_def read_uint32_bytes baked_material_def)
qed

lemma bytes_of_array_all:
  "bytes_of_array enc (length xs) xs = Some (concat (map enc xs))"
  by (simp add: bytes_of_array_def)

lemma checked_read_concat:
  assumes "\<And>x. length (enc x) = sz"
  shows "checked_read' (concat (map enc xs) @ rest) (length xs * sz) = Inr (concat (map enc xs), rest)"
  by (rule checked_read_append) (simp add: length_concat_enc [of enc sz, OF assms])

lemma read_mesh_written:
  assumes "write_mesh mmesh imesh = Some bs"
    and "length (IndexedMesh.vert imesh) < 2 ^ 32"
    and "length (IndexedMesh.indices imesh) < 2 ^ 32"
    and "length (IndexedMesh.norm_v imesh) = length (IndexedMesh.vert imesh)"
    and "length (IndexedMesh.text_v imesh) = length (IndexedMesh.vert imesh)"
    and "length (IndexedMesh.tangent imesh) = length (IndexedMesh.vert imesh)"
    and "asserts \<longrightarrow> InputMeshInfo.materialIndex mmesh < nmat \<and> nmat < 2 ^ 32"
  shows "read_mesh asserts nmat (bs @ rest) = Inr (baked_mesh mmesh imesh, rest)"
proof -
  let ?V = "length (IndexedMesh.vert imesh)"
  let ?I = "length (IndexedMesh.indices imesh)"
  have uV: "unat (of_nat ?V :: 32 word) = ?V" using assms(2) by (rule unat_of_nat32)
  have uI: "unat (of_nat ?I :: 32 word) = ?I" using assms(3) by (rule unat_of_nat32)
  have bs: "bs = bytes_of_uint32 (of_nat (InputMeshInfo.materialIndex mmesh)) @
      bytes_of_uint32 (of_nat ?V) @ bytes_of_uint32 (of_nat ?I) @
      concat (map bytes_of_vec3 (IndexedMesh.vert imesh)) @
      concat (map bytes_of_vec3 (IndexedMesh.norm_v imesh)) @
      concat (map bytes_of_vec2 (IndexedMesh.text_v imesh)) @
      concat (map bytes_of_vec4 (IndexedMesh.tangent imesh)) @
      concat (map bytes_of_uint32 (IndexedMesh.indices imesh))"
    using assms(1) uV uI assms(4-6)
    by (auto simp: write_mesh_def Let_def bytes_of_array_def split: bind_splits if_splits)
  have a: "\<not> (asserts \<and> \<not> unat (of_nat (InputMeshInfo.materialIndex mmesh) :: 32 word) < nmat)"
  proof (cases asserts)
    case True
    then have "InputMeshInfo.materialIndex mmesh < 2 ^ 32" using assms(7) by simp
    then show ?thesis using assms(7) True by (simp add: unat_of_nat32)
  qed simp
  have p: "checked_read' (concat (map bytes_of_vec3 (IndexedMesh.vert imesh)) @ r) (?V * 12) =
      Inr (concat (map bytes_of_vec3 (IndexedMesh.vert imesh)), r)" for r
    using checked_read_concat [of bytes_of_vec3 12] length_bytes_of_vec3 by simp
  have n: "checked_read' (concat (map bytes_of_vec3 (IndexedMesh.norm_v imesh)) @ r) (?V * 12) =
      Inr (concat (map bytes_of_vec3 (IndexedMesh.norm_v imesh)), r)" for r
    using checked_read_concat [of bytes_of_vec3 12 "IndexedMesh.norm_v imesh"]
      length_bytes_of_vec3 assms(4) by simp
  have t: "checked_read' (concat (map bytes_of_vec2 (IndexedMesh.text_v imesh)) @ r) (?V * 8) =
      Inr (concat (map bytes_of_vec2 (IndexedMesh.text_v imesh)), r)" for r
    using checked_read_concat [of bytes_of_vec2 8 "IndexedMesh.text_v imesh"]
      length_bytes_of_vec2 assms(5) by simp
  have g: "checked_read' (concat (map bytes_of_vec4 (IndexedMesh.tangent imesh)) @ r) (?V * 16) =
      Inr (concat (map bytes_of_vec4 (IndexedMesh.tangent imesh)), r)" for r
    using checked_read_concat [of bytes_of_vec4 16 "IndexedMesh.tangent imesh"]
      length_bytes_of_vec4 assms(6) by simp
  have i: "checked_read' (concat (map bytes_of_uint32 (IndexedMesh.indices imesh)) @ r) (?I * 4) =
      Inr (concat (map bytes_of_uint32 (IndexedMesh.indices imesh)), r)" for r
    using checked_read_concat [of bytes_of_uint32 4 "IndexedMesh.indices imesh"]
      length_bytes_of_uint32 by simp
  have dp: "array_of_bytes 12 vec3_of_bytes ?V (concat (map bytes_of_vec3 (IndexedMesh.vert imesh))) =
      IndexedMesh.vert imesh"
    by (rule array_roundtrip) (simp_all add: length_bytes_of_vec3 vec3_roundtrip)
  have dn: "array_of_bytes 12 vec3_of_bytes ?V (concat (map bytes_of_vec3 (IndexedMesh.norm_v imesh))) =
      IndexedMesh.norm_v imesh"
    using array_roundtrip [of bytes_of_vec3 12 vec3_of_bytes "IndexedMesh.norm_v imesh"] assms(4)
    by (simp add: length_bytes_of_vec3 vec3_roundtrip)
  have dt: "array_of_bytes 8 vec2_of_bytes ?V (concat (map bytes_of_vec2 (IndexedMesh.text_v imesh))) =
      IndexedMesh.text_v imesh"
    using array_roundtrip [of bytes_of_vec2 8 vec2_of_bytes "IndexedMesh.text_v imesh"] assms(5)
    by (simp add: length_bytes_of_vec2 vec2_roundtrip)
  have dg: "array_of_bytes 16 vec4_of_bytes ?V (concat (map bytes_of_vec4 (IndexedMesh.tangent imesh))) =
      IndexedMesh.tangent imesh"
    using array_roundtrip [of bytes_of_vec4 16 vec4_of_bytes "IndexedMesh.tangent imesh"] assms(6)
    by (simp add: length_bytes_of_vec4 vec4_roundtrip)
  have di: "array_of_bytes 4 uint32_of_bytes ?I (concat (map bytes_of_uint32 (IndexedMesh.indices imesh))) =
      IndexedMesh.indices imesh"
    by (rule array_roundtrip) (simp_all add: length_bytes_of_uint32 uint32_bytes_roundtrip)
  show ?thesis
    unfolding bs read_mesh_def
    using a by (simp add: read_uint32_bytes uV uI p n t g i dp dn dt dg di baked_mesh_def)
qed

lemma place_texture_props:
  assumes "place_texture t ord = Some ord'"
  shows "length ord' = length ord \<and> unat (uniqueId t) < length ord \<and>
     ord ! unat (uniqueId t) = None \<and> ord' = ord [unat (uniqueId t) := Some t]"
  using assms by (auto simp: place_texture_def Let_def split: if_splits)

lemma ordered_fold_props:
  assumes "foldM (\<lambda>tex. place_texture (snd tex)) xs ord0 = Some ord"
  shows "length ord = length ord0 \<and>
     (\<forall>i<length ord0. ord0 ! i \<noteq> None \<longrightarrow> ord ! i = ord0 ! i) \<and>
     (\<forall>e\<in>set xs. unat (uniqueId (snd e)) < length ord0 \<and>
        ord ! unat (uniqueId (snd e)) = Some (snd e)) \<and>
     (\<forall>i<length ord0. \<forall>t. ord ! i = Some t \<longrightarrow> ord0 ! i = Some t \<or> t \<in> snd ` set xs)"
  using assms
proof (induction xs arbitrary: ord0)
  case Nil
  then show ?case by simp
next
  case (Cons e xs)
  from Cons.prems obtain ord1 where
    1: "place_texture (snd e) ord0 = Some ord1"
    and 2: "foldM (\<lambda>tex. place_texture (snd tex)) xs ord1 = Some ord"
    by (auto split: option.splits)
  note p = place_texture_props [OF 1]
  note ih = Cons.IH [OF 2]
  let ?k = "unat (uniqueId (snd e))"
  have l: "length ord = length ord0" using ih p by simp
  have keep: "\<forall>i<length ord0. ord0 ! i \<noteq> None \<longrightarrow> ord ! i = ord0 ! i"
  proof (intro allI impI)
    fix i assume i: "i < length ord0" "ord0 ! i \<noteq> None"
    then have "i \<noteq> ?k" using p by auto
    then have "ord1 ! i = ord0 ! i" using p by simp
    then show "ord ! i = ord0 ! i" using ih i p by simp
  qed
  have "ord1 ! ?k = Some (snd e)" using p by simp
  then have here: "ord ! ?k = Some (snd e)" using ih p by simp
  have placed: "\<forall>e'\<in>set (e # xs). unat (uniqueId (snd e')) < length ord0 \<and>
        ord ! unat (uniqueId (snd e')) = Some (snd e')"
    using here ih p by auto
  have origin: "\<forall>i<length ord0. \<forall>t. ord ! i = Some t \<longrightarrow> ord0 ! i = Some t \<or> t \<in> snd ` set (e # xs)"
  proof (intro allI impI)
    fix i t assume i: "i < length ord0" "ord ! i = Some t"
    then have "ord1 ! i = Some t \<or> t \<in> snd ` set xs" using ih p by simp
    then show "ord0 ! i = Some t \<or> t \<in> snd ` set (e # xs)"
      using p i(1) by (cases "i = ?k") auto
  qed
  show ?case using l keep placed origin by blast
qed

lemma ordered_unique_props:
  assumes "ordered_unique aTextures = Some ord"
  shows "length ord = length aTextures \<and>
     (\<forall>e\<in>set aTextures. unat (uniqueId (snd e)) < length aTextures \<and>
        ord ! unat (uniqueId (snd e)) = Some (snd e)) \<and>
     (\<forall>t. Some t \<in> set ord \<longrightarrow> t \<in> snd ` set aTextures)"
proof -
  note p = ordered_fold_props [OF assms [unfolded ordered_unique_def]]
  have "t \<in> snd ` set aTextures" if "Some t \<in> set ord" for t
  proof -
    from that obtain i where "i < length ord" "ord ! i = Some t" by (auto simp: in_set_conv_nth)
    then show ?thesis using p by auto
  qed
  then show ?thesis using p by simp
qed

lemma texture_index_found:
  assumes "ordered_unique aTextures = Some ord" and "write_tex' aTextures p = Some b" and "p \<noteq> []"
  shows "unat (texture_index aTextures p) < length aTextures"
proof -
  from assms(2,3) obtain info where i: "map_of aTextures p = Some info"
    by (auto simp: write_tex'_def split: option.splits)
  then have "(p, info) \<in> set aTextures" by (rule map_of_SomeD)
  then show ?thesis using ordered_unique_props [OF assms(1)] i assms(3)
    by (force simp: texture_index_def)
qed

lemma serialize_then_load_lemma:
  assumes w: "write_model_data' aModel aIndexedMeshes aTextures = Some bytes"
    and nt: "length aTextures < 2 ^ 32"
    and nm: "length (InputModel.materials aModel) < 2 ^ 32"
    and nk: "length (InputModel.meshes aModel) < 2 ^ 32"
    and st: "\<forall>e\<in>set aTextures. length (c_str (newPath (snd e))) + 1 < 32768"
    and im: "\<forall>imesh\<in>set aIndexedMeshes.
        length (IndexedMesh.vert imesh) < 2 ^ 32 \<and> length (IndexedMesh.indices imesh) < 2 ^ 32 \<and>
        length (IndexedMesh.norm_v imesh) = length (IndexedMesh.vert imesh) \<and>
        length (IndexedMesh.text_v imesh) = length (IndexedMesh.vert imesh) \<and>
        length (IndexedMesh.tangent imesh) = length (IndexedMesh.vert imesh)"
    and as: "asserts \<longrightarrow>
        (\<forall>mat\<in>set (InputModel.materials aModel).
           baseColorTexturePath mat \<noteq> [] \<and> roughnessTexturePath mat \<noteq> [] \<and>
           metalnessTexturePath mat \<noteq> []) \<and>
        (\<forall>mmesh\<in>set (InputModel.meshes aModel).
           InputMeshInfo.materialIndex mmesh < length (InputModel.materials aModel))"
  shows "\<exists>ts. ordered_unique aTextures = Some (map Some ts) \<and>
     (\<forall>e\<in>set aTextures. unat (uniqueId (snd e)) < length ts \<and>
        ts ! unat (uniqueId (snd e)) = snd e) \<and>
     load_baked_model' asserts bytes name =
       Inr (\<lparr> textures = map (baked_texture (path_prefix name)) ts,
              materials = map (baked_material aTextures) (InputModel.materials aModel),
              meshes = map (\<lambda>(mmesh, imesh). baked_mesh mmesh imesh)
                         (zip (InputModel.meshes aModel) aIndexedMeshes) \<rparr>, False)"
proof -
  from w obtain ord texs mats ms where
    ou: "ordered_unique aTextures = Some ord"
    and wt: "those (map write_texture ord) = Some texs"
    and wm: "those (map (write_material aTextures) (InputModel.materials aModel)) = Some mats"
    and len: "length (InputModel.meshes aModel) = length aIndexedMeshes"
    and wk: "those (map (\<lambda>(mmesh, imesh). write_mesh mmesh imesh)
               (zip (InputModel.meshes aModel) aIndexedMeshes)) = Some ms"
    and bytes: "bytes = kFileMagic @ kFileVariant @
             bytes_of_uint32 (of_nat (length ord)) @ concat texs @
             bytes_of_uint32 (of_nat (length (InputModel.materials aModel))) @ concat mats @
             bytes_of_uint32 (of_nat (length (InputModel.meshes aModel))) @ concat ms"
    by (auto simp: write_model_data'_def Let_def split: bind_splits if_splits)
  note op = ordered_unique_props [OF ou]
  note tt = those_map_Some [OF wt]
  note mm = those_map_Some [OF wm]
  note kk = those_map_Some [OF wk]
  define ts where "ts = map the ord"
  have allSome: "\<forall>q\<in>set ord. q \<noteq> None"
    using tt by (auto simp: write_texture_def split: option.splits)
  then have ord: "ord = map Some ts"
    unfolding ts_def by (induction ord) auto
  have lts: "length ts = length aTextures" using op by (simp add: ts_def)
  have placed: "\<forall>e\<in>set aTextures. unat (uniqueId (snd e)) < length ts \<and>
        ts ! unat (uniqueId (snd e)) = snd e"
    using op lts by (auto simp: ts_def)
  have tsin: "\<forall>t\<in>set ts. t \<in> snd ` set aTextures"
    using op unfolding ord by auto
  \<comment> \<open>the texture table\<close>
  have texs: "concat texs = concat (map (\<lambda>t. the (write_texture (Some t))) ts)"
    using tt unfolding ord by (simp add: comp_def)
  have rt: "read_repeat (length ts) (read_texture (path_prefix name))
      (concat (map (\<lambda>t. the (write_texture (Some t))) ts) @ r) =
      Inr (map (baked_texture (path_prefix name)) ts, r)" for r
  proof (rule read_repeat_concat)
    fix t rest assume "t \<in> set ts"
    then have "length (c_str (newPath t)) + 1 < 32768" using tsin st by auto
    then show "read_texture (path_prefix name) (the (write_texture (Some t)) @ rest) =
        Inr (baked_texture (path_prefix name) t, rest)"
      by (rule read_texture_written)
  qed
  \<comment> \<open>the material table\<close>
  have mats: "concat mats =
      concat (map (\<lambda>m. the (write_material aTextures m)) (InputModel.materials aModel))"
    using mm by simp
  have rm: "read_repeat (length (InputModel.materials aModel)) (read_material asserts (length ts))
      (concat (map (\<lambda>m. the (write_material aTextures m)) (InputModel.materials aModel)) @ r) =
      Inr (map (baked_material aTextures) (InputModel.materials aModel), r)" for r
  proof (rule read_repeat_concat)
    fix mat rest assume m: "mat \<in> set (InputModel.materials aModel)"
    then obtain bs where bs: "write_material aTextures mat = Some bs" using mm by auto
    then obtain b r' m' where
      wb: "write_tex' aTextures (baseColorTexturePath mat) = Some b"
          "write_tex' aTextures (roughnessTexturePath mat) = Some r'"
          "write_tex' aTextures (metalnessTexturePath mat) = Some m'"
      by (auto simp: write_material_def split: bind_splits)
    have "asserts \<longrightarrow>
       unat (texture_index aTextures (baseColorTexturePath mat)) < length ts \<and>
       unat (texture_index aTextures (roughnessTexturePath mat)) < length ts \<and>
       unat (texture_index aTextures (metalnessTexturePath mat)) < length ts"
      using as m texture_index_found [OF ou wb(1)] texture_index_found [OF ou wb(2)]
        texture_index_found [OF ou wb(3)] lts by auto
    from read_material_written [OF bs this]
    show "read_material asserts (length ts) (the (write_material aTextures mat) @ rest) =
        Inr (baked_material aTextures mat, rest)"
      using bs by simp
  qed
  \<comment> \<open>the mesh table\<close>
  let ?z = "zip (InputModel.meshes aModel) aIndexedMeshes"
  have lz: "length ?z = length (InputModel.meshes aModel)" using len by simp
  have ms: "concat ms = concat (map (\<lambda>p. the (case p of (mmesh, imesh) \<Rightarrow> write_mesh mmesh imesh)) ?z)"
    using kk by simp
  have rk: "read_repeat (length ?z) (read_mesh asserts (length (InputModel.materials aModel)))
      (concat (map (\<lambda>p. the (case p of (mmesh, imesh) \<Rightarrow> write_mesh mmesh imesh)) ?z) @ r) =
      Inr (map (\<lambda>(mmesh, imesh). baked_mesh mmesh imesh) ?z, r)" for r
  proof (rule read_repeat_concat)
    fix p rest assume p: "p \<in> set ?z"
    obtain mmesh imesh where pm: "p = (mmesh, imesh)" by (cases p)
    have in1: "mmesh \<in> set (InputModel.meshes aModel)" and in2: "imesh \<in> set aIndexedMeshes"
      using p pm by (auto dest: set_zip_leftD set_zip_rightD)
    obtain bs where bs: "write_mesh mmesh imesh = Some bs" using kk p pm by auto
    have a: "asserts \<longrightarrow> InputMeshInfo.materialIndex mmesh < length (InputModel.materials aModel) \<and>
        length (InputModel.materials aModel) < 2 ^ 32"
      using as in1 nm by auto
    from im in2 have i: "length (IndexedMesh.vert imesh) < 2 ^ 32"
      "length (IndexedMesh.indices imesh) < 2 ^ 32"
      "length (IndexedMesh.norm_v imesh) = length (IndexedMesh.vert imesh)"
      "length (IndexedMesh.text_v imesh) = length (IndexedMesh.vert imesh)"
      "length (IndexedMesh.tangent imesh) = length (IndexedMesh.vert imesh)" by auto
    from read_mesh_written [OF bs i a]
    show "read_mesh asserts (length (InputModel.materials aModel))
        (the (case p of (mmesh, imesh) \<Rightarrow> write_mesh mmesh imesh) @ rest) =
        Inr (case p of (mmesh, imesh) \<Rightarrow> baked_mesh mmesh imesh, rest)"
      using bs pm by simp
  qed
  have u1: "unat (of_nat (length ord) :: 32 word) = length ts"
    using nt lts ord by (simp add: unat_of_nat32)
  have u2: "unat (of_nat (length (InputModel.materials aModel)) :: 32 word) =
      length (InputModel.materials aModel)" using nm by (rule unat_of_nat32)
  have u3: "unat (of_nat (length (InputModel.meshes aModel)) :: 32 word) = length ?z"
    using nk lz by (simp add: unat_of_nat32)
  have "load_tables asserts bytes name =
       Inr (\<lparr> textures = map (baked_texture (path_prefix name)) ts,
              materials = map (baked_material aTextures) (InputModel.materials aModel),
              meshes = map (\<lambda>(mmesh, imesh). baked_mesh mmesh imesh) ?z \<rparr>, [])"
    unfolding bytes load_tables_header texs mats ms u1 u2 u3
    using rt rm rk [of "[]"]
    by (simp add: read_uint32_bytes u2 u3)
  then show ?thesis using ou ord placed by (simp add: load_baked_model'_def)
qed

lemma ex_written: "write_model_data' ex_model ex_indexed ex_textures = Some ex_bytes"
proof -
  have e: "(- 1 :: 32 word) = 4294967295" by simp
  show ?thesis
    by (simp add: write_model_data'_def ex_model_def ex_indexed_def ex_textures_def ex_bytes_def
      ordered_unique_def place_texture_def write_texture_def write_string'_def c_str_def
      write_material_def write_tex'_def write_mesh_def bytes_of_array_def Let_def e)
qed

lemma ex_loaded:
  "load_baked_model' asserts ex_bytes ''assets/m.comp5822mesh'' = Inr (ex_baked, False)"
proof -
  have s: "asserts \<longrightarrow>
        (\<forall>mat\<in>set (InputModel.materials ex_model).
           baseColorTexturePath mat \<noteq> [] \<and> roughnessTexturePath mat \<noteq> [] \<and>
           metalnessTexturePath mat \<noteq> []) \<and>
        (\<forall>mmesh\<in>set (InputModel.meshes ex_model).
           InputMeshInfo.materialIndex mmesh < length (InputModel.materials ex_model))"
    by (simp add: ex_model_def)
  from serialize_then_load_lemma [OF ex_written _ _ _ _ _ s, of "''assets/m.comp5822mesh''"]
  obtain ts where ts: "ordered_unique ex_textures = Some (map Some ts)"
    and l: "load_baked_model' asserts ex_bytes ''assets/m.comp5822mesh'' =
       Inr (\<lparr> textures = map (baked_texture (path_prefix ''assets/m.comp5822mesh'')) ts,
              materials = map (baked_material ex_textures) (InputModel.materials ex_model),
              meshes = map (\<lambda>(mmesh, imesh). baked_mesh mmesh imesh)
                         (zip (InputModel.meshes ex_model) ex_indexed) \<rparr>, False)"
    by (auto simp: ex_model_def ex_indexed_def ex_textures_def c_str_def)
  from ts have "ts = [snd (ex_textures ! 0)]"
    by (auto simp: ordered_unique_def place_texture_def ex_textures_def)
  then show ?thesis unfolding l
    by (simp add: ex_baked_def ex_model_def ex_indexed_def ex_textures_def baked_texture_def
        baked_material_def texture_index_def baked_mesh_def path_prefix_def c_str_def)
qed

text \<open>
  Claim C3 as stated fails on the paths: the loaded path of the one texture of
  \<open>ex_model\<close> ends in the terminator that the writer stores with it, so it is one byte
  longer than the prefix followed by the path that was written.
\<close>

theorem roundtrip_path_counterexample:
  "write_model_data' ex_model ex_indexed ex_textures = Some ex_bytes \<and>
   load_baked_model' True ex_bytes ''assets/m.comp5822mesh'' = Inr (ex_baked, False) \<and>
   path (textures ex_baked ! 0) = ''assets/m-tex/a.png'' @ [CHR 0x00] \<and>
   path_prefix ''assets/m.comp5822mesh'' @ newPath (snd (ex_textures ! 0)) = ''assets/m-tex/a.png'' \<and>
   path (textures ex_baked ! 0) \<noteq>
     path_prefix ''assets/m.comp5822mesh'' @ newPath (snd (ex_textures ! 0))"
  using ex_written ex_loaded [of True]
  by (simp add: ex_baked_def ex_textures_def path_prefix_def)

text \<open>
  Claim C3, amended.  Let \<open>write_model_data'\<close> write a model whose three tables have
  fewer than \<open>2 ^ 32\<close> entries, whose texture paths have fewer than 32767 bytes before
  their terminator, and whose meshes have fewer than \<open>2 ^ 32\<close> vertices and indices and
  normal, texcoord and tangent arrays as long as the position array; where
  \<^verbatim>\<open>assert\<close> is compiled in, let every material have its first three textures and
  every mesh a material of the model.  Then \<open>load_baked_model'\<close> loads the bytes without
  a note on trailing bytes, and the model has: the textures in the order of their
  identifiers, each with its channel count and with the path made of the prefix of the
  file name, the written path up to its first zero byte, and one zero byte; for each
  material the five identifiers that were written, \<open>0xFFFFFFFF\<close> for an empty path; and
  for each mesh the material index and the five arrays as they were.
\<close>

theorem serialize_then_load:
  assumes "write_model_data' aModel aIndexedMeshes aTextures = Some bytes"
    and "length aTextures < 2 ^ 32"
    and "length (InputModel.materials aModel) < 2 ^ 32"
    and "length (InputModel.meshes aModel) < 2 ^ 32"
    and "\<forall>e\<in>set aTextures. length (c_str (newPath (snd e))) + 1 < 32768"
    and "\<forall>imesh\<in>set aIndexedMeshes.
        length (IndexedMesh.vert imesh) < 2 ^ 32 \<and> length (IndexedMesh.indices imesh) < 2 ^ 32 \<and>
        length (IndexedMesh.norm_v imesh) = length (IndexedMesh.vert imesh) \<and>
        length (IndexedMesh.text_v imesh) = length (IndexedMesh.vert imesh) \<and>
        length (IndexedMesh.tangent imesh) = length (IndexedMesh.vert imesh)"
    and "asserts \<longrightarrow>
        (\<forall>mat\<in>set (InputModel.materials aModel).
           baseColorTexturePath mat \<noteq> [] \<and> roughnessTexturePath mat \<noteq> [] \<and>
           metalnessTexturePath mat \<noteq> []) \<and>
        (\<forall>mmesh\<in>set (InputModel.meshes aModel).
           InputMeshInfo.materialIndex mmesh < length (InputModel.materials aModel))"
  shows "\<exists>ts. ordered_unique aTextures = Some (map Some ts) \<and>
     (\<forall>e\<in>set aTextures. unat (uniqueId (snd e)) < length ts \<and>
        ts ! unat (uniqueId (snd e)) = snd e) \<and>
     load_baked_model' asserts bytes name =
       Inr (\<lparr> textures = map (baked_texture (path_prefix name)) ts,
              materials = map (baked_material aTextures) (InputModel.materials aModel),
              meshes = map (\<lambda>(mmesh, imesh). baked_mesh mmesh imesh)
                         (zip (InputModel.meshes aModel) aIndexedMeshes) \<rparr>, False)"
  using assms by (rule serialize_then_load_lemma)

theorem serialize_then_load_witness:
  "write_model_data' ex_model ex_indexed ex_textures = Some ex_bytes \<and>
   load_baked_model' True ex_bytes ''assets/m.comp5822mesh'' = Inr (ex_baked, False) \<and>
   textures ex_baked = [\<lparr> path = ''assets/m-tex/a.png'' @ [CHR 0x00], channels = 4 \<rparr>] \<and>
   map normalMapTextureId (materials ex_baked) = [0xFFFFFFFF] \<and>
   map positions (meshes ex_baked) = map IndexedMesh.vert ex_indexed \<and>
   map normals (meshes ex_baked) = map IndexedMesh.norm_v ex_indexed \<and>
   map texcoords (meshes ex_baked) = map IndexedMesh.text_v ex_indexed \<and>
   map tangents (meshes ex_baked) = map IndexedMesh.tangent ex_indexed \<and>
   map indices (meshes ex_baked) = map IndexedMesh.indices ex_indexed"
proof -
  have s: "True \<longrightarrow>
        (\<forall>mat\<in>set (InputModel.materials ex_model).
           baseColorTexturePath mat \<noteq> [] \<and> roughnessTexturePath mat \<noteq> [] \<and>
           metalnessTexturePath mat \<noteq> []) \<and>
        (\<forall>mmesh\<in>set (InputModel.meshes ex_model).
           InputMeshInfo.materialIndex mmesh < length (InputModel.materials ex_model))"
    by (simp add: ex_model_def)
  from serialize_then_load [OF ex_written _ _ _ _ _ s, of "''assets/m.comp5822mesh''"]
  obtain ts where ts: "ordered_unique ex_textures = Some (map Some ts)"
    and l: "load_baked_model' True ex_bytes ''assets/m.comp5822mesh'' =
       Inr (\<lparr> textures = map (baked_texture (path_prefix ''assets/m.comp5822mesh'')) ts,
              materials = map (baked_material ex_textures) (InputModel.materials ex_model),
              meshes = map (\<lambda>(mmesh, imesh). baked_mesh mmesh imesh)
                         (zip (InputModel.meshes ex_model) ex_indexed) \<rparr>, False)"
    by (auto simp: ex_model_def ex_indexed_def ex_textures_def c_str_def)
  from ts have "ts = [snd (ex_textures ! 0)]"
    by (auto simp: ordered_unique_def place_texture_def ex_textures_def)
  then have "load_baked_model' True ex_bytes ''assets/m.comp5822mesh'' = Inr (ex_baked, False)"
    unfolding l
    by (simp add: ex_baked_def ex_model_def ex_indexed_def ex_textures_def baked_texture_def
        baked_material_def texture_index_def baked_mesh_def path_prefix_def c_str_def)
  then show ?thesis using ex_written by (simp add: ex_baked_def ex_indexed_def)
qed


end
